theory Spec2Isabelle
  imports Main "HOL-Library.Char_ord" "HOL-Library.List_Lexorder"
begin

section \<open>Python values, exceptions and the outside world\<close>

text \<open>
  The two modules \<^verbatim>\<open>cli/challenges.py\<close> and \<^verbatim>\<open>cli/main.py\<close> drive external
  programs (docker, kubectl, helm), the file system, one background process and one
  HTTP request. Each method is embedded as a function from the state before the call
  to a result and the state after it. A result is \<open>Inl e\<close> when the method raises the
  exception \<open>e\<close> and \<open>Inr v\<close> when it returns \<open>v\<close>.

  Only subclasses of Python's \<^verbatim>\<open>Exception\<close> are modelled: every \<^verbatim>\<open>except Exception\<close>
  clause catches every value of type \<open>exc\<close>. Asynchronous signal delivery, and the
  \<^verbatim>\<open>SystemExit\<close> a signal handler raises, are outside the model, as is the rendering
  of panels on the console.
\<close>

datatype exc =
    CalledProcessError | TimeoutExpired
  | FileNotFoundError | OSError
  | YAMLError
  | ConnectTimeout | RequestsConnectionError | ReadTimeout | RequestException
  | AttributeError | TypeError | KeyError | UnboundLocalError
  | AssertionError | EOFError | OtherException

text \<open>
  The class hierarchy, as far as the handlers of the source look at it.
  \<^verbatim>\<open>requests.ConnectTimeout\<close> derives from both \<^verbatim>\<open>ConnectionError\<close> and \<^verbatim>\<open>Timeout\<close>;
  \<^verbatim>\<open>RequestException\<close> derives from \<^verbatim>\<open>IOError\<close>, which is \<^verbatim>\<open>OSError\<close>.
\<close>

definition is_ConnectTimeout :: "exc \<Rightarrow> bool" where
  "is_ConnectTimeout e = (e = ConnectTimeout)"

definition is_RequestsConnectionError :: "exc \<Rightarrow> bool" where
  "is_RequestsConnectionError e = (e = ConnectTimeout \<or> e = RequestsConnectionError)"

definition is_Timeout :: "exc \<Rightarrow> bool" where
  "is_Timeout e = (e = ConnectTimeout \<or> e = ReadTimeout)"

definition is_RequestException :: "exc \<Rightarrow> bool" where
  "is_RequestException e =
     (e = ConnectTimeout \<or> e = RequestsConnectionError \<or> e = ReadTimeout \<or> e = RequestException)"

definition is_OSError :: "exc \<Rightarrow> bool" where
  "is_OSError e = (e = FileNotFoundError \<or> e = OSError \<or> is_RequestException e)"

definition is_YAMLError :: "exc \<Rightarrow> bool" where
  "is_YAMLError e = (e = YAMLError)"

text \<open>
  What \<^verbatim>\<open>yaml.safe_load\<close> yields: null, booleans, integers, strings, sequences and
  mappings (a mapping as the list of its items). Floats, timestamps and binary
  scalars are left out.
\<close>

datatype yaml =
    YNull | YBool bool | YInt int | YStr string
  | YSeq "yaml list" | YMap "(yaml \<times> yaml) list"

text \<open>Python's truth value of an object (\<^verbatim>\<open>if x:\<close>, \<^verbatim>\<open>not x\<close>).\<close>

fun truthy :: "yaml \<Rightarrow> bool" where
  "truthy YNull = False"
| "truthy (YBool b) = b"
| "truthy (YInt i) = (i \<noteq> 0)"
| "truthy (YStr s) = (s \<noteq> [])"
| "truthy (YSeq xs) = (xs \<noteq> [])"
| "truthy (YMap kvs) = (kvs \<noteq> [])"

text \<open>\<^verbatim>\<open>key in d\<close> and \<^verbatim>\<open>d.get(key, default)\<close> on a dict with a string key.\<close>

definition has_key :: "(yaml \<times> yaml) list \<Rightarrow> string \<Rightarrow> bool" where
  "has_key d k = (map_of d (YStr k) \<noteq> None)"

definition dict_get :: "(yaml \<times> yaml) list \<Rightarrow> string \<Rightarrow> yaml \<Rightarrow> yaml" where
  "dict_get d k dflt = (case map_of d (YStr k) of None \<Rightarrow> dflt | Some v \<Rightarrow> v)"

text \<open>
  \<^verbatim>\<open>str.strip()\<close> and \<^verbatim>\<open>str.split('\n')\<close>. A string is a list of characters with code
  points below 256. Among these, the white space that \<^verbatim>\<open>strip()\<close> removes is the blank,
  the control characters 9 to 13 and 28 to 31, the next-line character U+0085 and the
  no-break space U+00A0. Texts with code points from 256 on are outside the model.
\<close>

definition is_space :: "char \<Rightarrow> bool" where
  "is_space c = (c \<in> set [CHR '' '', CHR 0x09, CHR 0x0A, CHR 0x0B, CHR 0x0C, CHR 0x0D,
                             CHR 0x1C, CHR 0x1D, CHR 0x1E, CHR 0x1F, CHR 0x85, CHR 0xA0])"

definition strip :: "string \<Rightarrow> string" where
  "strip s = rev (dropWhile is_space (rev (dropWhile is_space s)))"

fun split_nl :: "string \<Rightarrow> string list" where
  "split_nl [] = [[]]"
| "split_nl (c # cs) =
     (if c = CHR 0x0A then [] # split_nl cs
      else (case split_nl cs of [] \<Rightarrow> [[c]] | w # ws \<Rightarrow> (c # w) # ws))"

subsection \<open>Commands, events and the environment\<close>

text \<open>
  A command line is the string handed to \<^verbatim>\<open>_run_command\<close>. The one command built from
  scenario data, \<^verbatim>\<open>kubectl patch {resource} {name} -n {namespace} --type {patch_type} -p '{patch_json}'\<close>,
  is kept as its five interpolated values.
\<close>

datatype command =
    Shell string
  | KubectlPatch yaml yaml yaml yaml string

datatype completed = Completed (returncode: int) (stdout: string)

text \<open>
  Every interaction with the outside world is recorded, with its outcome, in a trace.
  The trace is the history the world has seen, so the environment answers each
  request as a function of the trace so far: any deterministic world is an
  environment.

  \<^verbatim>\<open>Path.exists()\<close> answers \<^verbatim>\<open>False\<close> for a path that is not there and raises \<^verbatim>\<open>OSError\<close>
  when the path cannot be examined (a name that is too long, a parent directory that
  cannot be searched). The scenario directory is given on the command line, and the
  probes of it, \<^verbatim>\<open>exists()\<close> and \<^verbatim>\<open>glob()\<close> in \<^verbatim>\<open>discover_challenges\<close>, stand outside any
  \<^verbatim>\<open>try\<close>: they are \<open>dir_exists\<close> and \<open>list_dir\<close>, which can raise. The other paths
  probed are fixed names under \<^verbatim>\<open>/tmp\<close>; \<open>path_exists\<close>, the probe of those, is taken to
  answer.
\<close>

datatype event =
    Ran command bool bool "exc + completed"
  | Sleep nat
  | PathExists string bool
  | DirExists string "exc + bool"
  | ListDir string "exc + string list"
  | ReadText string "exc + string"
  | WriteText string string "exc + unit"
  | Popen string "exc + unit"
  | Poll "exc + int option"
  | HttpGet string nat "exc + int"
  | Terminate "exc + unit"
  | Wait nat "exc + int"
  | Kill "exc + unit"
  | Now int
  | Warn yaml yaml exc
  | TmateInfo

record env =
  subprocess_run :: "event list \<Rightarrow> command \<Rightarrow> exc + completed"
  path_exists :: "event list \<Rightarrow> string \<Rightarrow> bool"
  dir_exists :: "event list \<Rightarrow> string \<Rightarrow> exc + bool"
  list_dir :: "event list \<Rightarrow> string \<Rightarrow> exc + string list"
  read_text :: "event list \<Rightarrow> string \<Rightarrow> exc + string"
  write_text :: "event list \<Rightarrow> string \<Rightarrow> string \<Rightarrow> exc + unit"
  popen :: "event list \<Rightarrow> string \<Rightarrow> exc + unit"
  proc_poll :: "event list \<Rightarrow> exc + int option"
  proc_terminate :: "event list \<Rightarrow> exc + unit"
  proc_wait :: "event list \<Rightarrow> nat \<Rightarrow> exc + int"
  proc_kill :: "event list \<Rightarrow> exc + unit"
  requests_get :: "event list \<Rightarrow> string \<Rightarrow> nat \<Rightarrow> exc + int"
  clock :: "event list \<Rightarrow> int"
  yaml_safe_load :: "string \<Rightarrow> exc + yaml"
  yaml_dump :: "yaml \<Rightarrow> string"
  json_dumps :: "yaml \<Rightarrow> exc + string"

section \<open>cli/challenges.py\<close>

record Challenge =
  filename :: string
  name :: yaml
  description :: yaml
  helm_values :: yaml
  kubectl_patches :: yaml
  estimates :: yaml
  challenge_dir :: string

record ChallengeManager =
  challenges_dir :: string
  challenges :: "Challenge list"
  current_challenge :: "Challenge option"
  candidate_container_name :: string
  trace :: "event list"

definition flagsmith_namespace :: string where
  "flagsmith_namespace = ''flagsmith''"

definition helm_release_name :: string where
  "helm_release_name = ''flagsmith''"

definition emit :: "event \<Rightarrow> ChallengeManager \<Rightarrow> ChallengeManager" where
  "emit ev s = s\<lparr>trace := trace s @ [ev]\<rparr>"

text \<open>
  \<^verbatim>\<open>_run_command\<close>: \<^verbatim>\<open>subprocess.run\<close> raises when the program cannot be started
  (or \<^verbatim>\<open>shlex.split\<close> rejects the line) whatever \<^verbatim>\<open>check\<close> is, and raises
  \<^verbatim>\<open>CalledProcessError\<close> on a non-zero exit status when \<^verbatim>\<open>check\<close> is set.
\<close>

definition run_command ::
  "env \<Rightarrow> command \<Rightarrow> bool \<Rightarrow> bool \<Rightarrow> ChallengeManager \<Rightarrow> (exc + completed) \<times> ChallengeManager" where
  "run_command E cmd check verbose s =
     (let r = subprocess_run E (trace s) cmd;
          s' = emit (Ran cmd check verbose r) s
      in case r of
           Inl e \<Rightarrow> (Inl e, s')
         | Inr cp \<Rightarrow> if check \<and> returncode cp \<noteq> 0 then (Inl CalledProcessError, s')
                     else (Inr cp, s'))"

definition sleep :: "nat \<Rightarrow> ChallengeManager \<Rightarrow> ChallengeManager" where
  "sleep n s = emit (Sleep n) s"

text \<open>The loop of \<^verbatim>\<open>_force_cleanup_containers\<close> over the container ids.\<close>

fun remove_containers ::
  "env \<Rightarrow> string list \<Rightarrow> ChallengeManager \<Rightarrow> (exc + unit) \<times> ChallengeManager" where
  "remove_containers E [] s = (Inr (), s)"
| "remove_containers E (container_id # ids) s =
     (if strip container_id \<noteq> [] then
        (case run_command E (Shell (''docker rm -f '' @ strip container_id)) False False s of
           (Inl e, s') \<Rightarrow> (Inl e, s')
         | (Inr _, s') \<Rightarrow> remove_containers E ids s')
      else remove_containers E ids s)"

definition docker_ps_cmd :: command where
  "docker_ps_cmd =
     Shell ''docker ps -a --filter \"name=k8s_challenger-candidate-env\" --format \"{{.ID}}\"''"

definition force_cleanup_containers ::
  "env \<Rightarrow> ChallengeManager \<Rightarrow> (exc + unit) \<times> ChallengeManager" where
  "force_cleanup_containers E s =
     (case (case run_command E docker_ps_cmd False False s of
              (Inl e, s') \<Rightarrow> (Inl e, s')
            | (Inr result, s') \<Rightarrow>
                if returncode result = 0 \<and> strip (stdout result) \<noteq> []
                then remove_containers E (split_nl (strip (stdout result))) s'
                else (Inr (), s'))
      of (Inl e, s') \<Rightarrow> (Inr (), s')
       | (Inr u, s') \<Rightarrow> (Inr (), s'))"

definition compose_down_cmd :: command where
  "compose_down_cmd = Shell ''docker-compose down --volumes --remove-orphans''"

text \<open>
  \<^verbatim>\<open>_cleanup\<close> (private methods are named without their leading underscore). Its
  first command is outside any \<^verbatim>\<open>try\<close>.
\<close>

definition cleanup ::
  "env \<Rightarrow> ChallengeManager \<Rightarrow> (exc + unit) \<times> ChallengeManager" where
  "cleanup E s =
     (case run_command E compose_down_cmd False False s of
        (Inl e, s') \<Rightarrow> (Inl e, s')
      | (Inr _, s') \<Rightarrow> force_cleanup_containers E s')"

subsection \<open>Discovery\<close>

definition required_fields :: "string list" where
  "required_fields = [''name'', ''description'', ''helm_values'', ''kubectl_patches'', ''estimates'']"

definition ends_with :: "string \<Rightarrow> string \<Rightarrow> bool" where
  "ends_with sfx s = (length sfx \<le> length s \<and> drop (length s - length sfx) s = sfx)"

definition join_path :: "string \<Rightarrow> string \<Rightarrow> string" where
  "join_path dir fname = dir @ ''/'' @ fname"

text \<open>
  \<^verbatim>\<open>_parse_challenge_file\<close>, for the file \<open>fname\<close> of the directory \<open>dir\<close>. The five
  subscripts \<^verbatim>\<open>data['name']\<close> ... raise \<^verbatim>\<open>KeyError\<close> on a missing key.
\<close>

definition parse_challenge_file ::
  "env \<Rightarrow> string \<Rightarrow> string \<Rightarrow> ChallengeManager \<Rightarrow> (exc + Challenge option) \<times> ChallengeManager" where
  "parse_challenge_file E dir fname s =
     (let r = read_text E (trace s) (join_path dir fname);
          s' = emit (ReadText (join_path dir fname) r) s
      in case (case r of Inl e \<Rightarrow> Inl e | Inr txt \<Rightarrow> yaml_safe_load E txt) of
           Inl e \<Rightarrow> if is_YAMLError e \<or> is_OSError e then (Inr None, s') else (Inl e, s')
         | Inr data \<Rightarrow>
             (case data of
                YMap d \<Rightarrow>
                  if \<not> (\<forall>field \<in> set required_fields. has_key d field) then (Inr None, s')
                  else (case (map_of d (YStr ''name''), map_of d (YStr ''description''),
                              map_of d (YStr ''helm_values''), map_of d (YStr ''kubectl_patches''),
                              map_of d (YStr ''estimates'')) of
                          (Some n, Some de, Some hv, Some kp, Some es) \<Rightarrow>
                            (Inr (Some \<lparr>filename = fname, name = n, description = de,
                                         helm_values = hv, kubectl_patches = kp, estimates = es,
                                         challenge_dir = dir\<rparr>), s')
                        | _ \<Rightarrow> (Inl KeyError, s'))
              | _ \<Rightarrow> (Inr None, s')))"

text \<open>
  The loop of \<^verbatim>\<open>discover_challenges\<close>. A \<^verbatim>\<open>Challenge\<close> object defines neither
  \<^verbatim>\<open>__bool__\<close> nor \<^verbatim>\<open>__len__\<close>, so \<^verbatim>\<open>if challenge:\<close> holds exactly when the parser
  did not return \<^verbatim>\<open>None\<close>.
\<close>

fun discover_loop ::
  "env \<Rightarrow> string \<Rightarrow> string list \<Rightarrow> ChallengeManager \<Rightarrow> (exc + unit) \<times> ChallengeManager" where
  "discover_loop E dir [] s = (Inr (), s)"
| "discover_loop E dir (yaml_file # rest) s =
     (case parse_challenge_file E dir yaml_file s of
        (Inl e, s') \<Rightarrow> discover_loop E dir rest s'
      | (Inr None, s') \<Rightarrow> discover_loop E dir rest s'
      | (Inr (Some challenge), s') \<Rightarrow>
          discover_loop E dir rest (s'\<lparr>challenges := challenges s' @ [challenge]\<rparr>))"

text \<open>
  \<^verbatim>\<open>discover_challenges\<close>. \<^verbatim>\<open>glob("*.yaml")\<close> is the directory listing filtered by the
  suffix; paths of one directory sort by file name. The catalog is emptied first; the
  two probes of the directory come before the loop and outside its \<^verbatim>\<open>try\<close>, so what they
  raise leaves the method.
\<close>

definition discover_challenges ::
  "env \<Rightarrow> ChallengeManager \<Rightarrow> (exc + unit) \<times> ChallengeManager" where
  "discover_challenges E s =
     (let s0 = s\<lparr>challenges := []\<rparr>;
          r = dir_exists E (trace s0) (challenges_dir s0);
          s1 = emit (DirExists (challenges_dir s0) r) s0
      in case r of
           Inl e \<Rightarrow> (Inl e, s1)
         | Inr ex \<Rightarrow>
             if \<not> ex then (Inr (), s1)
             else
               (let l = list_dir E (trace s1) (challenges_dir s1);
                    s2 = emit (ListDir (challenges_dir s1) l) s1
                in case l of
                     Inl e \<Rightarrow> (Inl e, s2)
                   | Inr names \<Rightarrow>
                       discover_loop E (challenges_dir s2)
                         (sort (filter (ends_with ''.yaml'') names)) s2))"

subsection \<open>Provisioning\<close>

text \<open>
  \<^verbatim>\<open>for patch in patches\<close>: a list yields its elements, a dict its keys, a string its
  characters; an integer or a boolean is not iterable.
\<close>

fun py_iter :: "yaml \<Rightarrow> exc + yaml list" where
  "py_iter (YSeq xs) = Inr xs"
| "py_iter (YMap kvs) = Inr (map fst kvs)"
| "py_iter (YStr cs) = Inr (map (\<lambda>c. YStr [c]) cs)"
| "py_iter _ = Inl TypeError"

definition kubectl_cmd :: "env \<Rightarrow> (yaml \<times> yaml) list \<Rightarrow> string \<Rightarrow> command" where
  "kubectl_cmd E patch patch_json =
     KubectlPatch (dict_get patch ''resource'' YNull) (dict_get patch ''name'' YNull)
       (dict_get patch ''namespace'' (YStr flagsmith_namespace))
       (dict_get patch ''patch_type'' (YStr ''merge'')) patch_json"

text \<open>
  One iteration of the loop of \<^verbatim>\<open>_apply_kubectl_patches\<close>: the \<^verbatim>\<open>try\<close> block and its
  handler. The handler prints the local variables \<^verbatim>\<open>resource\<close> and \<^verbatim>\<open>name\<close>; \<open>bound\<close>
  holds their values once an iteration has assigned them, and the iteration returns the
  binding it leaves. \<^verbatim>\<open>patch.get\<close> exists on a dict only: on any other entry the first
  statement raises \<^verbatim>\<open>AttributeError\<close>, and the handler itself raises
  \<^verbatim>\<open>UnboundLocalError\<close> when no earlier entry has assigned the two variables. (The
  local \<^verbatim>\<open>name\<close> is written \<open>name'\<close>.)
\<close>

definition patch_iteration ::
  "env \<Rightarrow> yaml \<Rightarrow> (yaml \<times> yaml) option \<Rightarrow> ChallengeManager \<Rightarrow>
   (exc + (yaml \<times> yaml) option) \<times> ChallengeManager" where
  "patch_iteration E patch bound s =
     (case patch of
        YMap d \<Rightarrow>
          (let resource = dict_get d ''resource'' YNull;
               name' = dict_get d ''name'' YNull;
               patch_data = dict_get d ''patch'' (YMap [])
           in if \<not> truthy resource \<or> \<not> truthy name' \<or> \<not> truthy patch_data
              then (Inr (Some (resource, name')), s)
              else (case json_dumps E patch_data of
                      Inl e \<Rightarrow> (Inr (Some (resource, name')), emit (Warn resource name' e) s)
                    | Inr patch_json \<Rightarrow>
                        (case run_command E (kubectl_cmd E d patch_json) True True s of
                           (Inl e, s') \<Rightarrow>
                             (Inr (Some (resource, name')), emit (Warn resource name' e) s')
                         | (Inr _, s') \<Rightarrow> (Inr (Some (resource, name')), s'))))
      | _ \<Rightarrow>
          (case bound of
             None \<Rightarrow> (Inl UnboundLocalError, s)
           | Some (resource, name') \<Rightarrow>
               (Inr bound, emit (Warn resource name' AttributeError) s)))"

fun apply_patch_loop ::
  "env \<Rightarrow> yaml list \<Rightarrow> (yaml \<times> yaml) option \<Rightarrow> ChallengeManager \<Rightarrow> (exc + unit) \<times> ChallengeManager" where
  "apply_patch_loop E [] bound s = (Inr (), s)"
| "apply_patch_loop E (patch # rest) bound s =
     (case patch_iteration E patch bound s of
        (Inl e, s') \<Rightarrow> (Inl e, s')
      | (Inr bound', s') \<Rightarrow> apply_patch_loop E rest bound' s')"

definition apply_kubectl_patches ::
  "env \<Rightarrow> yaml \<Rightarrow> ChallengeManager \<Rightarrow> (exc + unit) \<times> ChallengeManager" where
  "apply_kubectl_patches E patches s =
     (case py_iter patches of
        Inl e \<Rightarrow> (Inl e, s)
      | Inr entries \<Rightarrow> apply_patch_loop E entries None s)"

text \<open>
  Statements in sequence: the first one that raises ends the block with its exception.
\<close>

fun run_all ::
  "(ChallengeManager \<Rightarrow> (exc + unit) \<times> ChallengeManager) list \<Rightarrow>
   ChallengeManager \<Rightarrow> (exc + unit) \<times> ChallengeManager" where
  "run_all [] s = (Inr (), s)"
| "run_all (stmt # stmts) s =
     (case stmt s of (Inl e, s') \<Rightarrow> (Inl e, s') | (Inr _, s') \<Rightarrow> run_all stmts s')"

definition discard ::
  "(ChallengeManager \<Rightarrow> (exc + 'a) \<times> ChallengeManager) \<Rightarrow>
   ChallengeManager \<Rightarrow> (exc + unit) \<times> ChallengeManager" where
  "discard f s = (case f s of (Inl e, s') \<Rightarrow> (Inl e, s') | (Inr _, s') \<Rightarrow> (Inr (), s'))"

definition pause :: "nat \<Rightarrow> ChallengeManager \<Rightarrow> (exc + unit) \<times> ChallengeManager" where
  "pause n s = (Inr (), sleep n s)"

definition values_file :: string where
  "values_file = ''/tmp/flagsmith-values.yaml''"

definition original_values :: string where
  "original_values = ''/tmp/flagsmith-charts/charts/flagsmith/values.yaml''"

definition clone_cmd :: command where
  "clone_cmd =
     Shell ''git clone https://github.com/Flagsmith/flagsmith-charts.git /tmp/flagsmith-charts''"

definition copy_values_cmd :: command where
  "copy_values_cmd = Shell (''cp '' @ original_values @ '' '' @ values_file)"

definition helm_cmd :: command where
  "helm_cmd =
     Shell (''helm upgrade --install '' @ helm_release_name @ '' flagsmith/flagsmith ''
            @ ''-f '' @ values_file @ '' -n '' @ flagsmith_namespace @ '' --create-namespace'')"

text \<open>\<^verbatim>\<open>if not Path("/tmp/flagsmith-charts").exists(): git clone ...\<close>\<close>

definition clone_charts :: "env \<Rightarrow> ChallengeManager \<Rightarrow> (exc + unit) \<times> ChallengeManager" where
  "clone_charts E s =
     (let ex = path_exists E (trace s) ''/tmp/flagsmith-charts'';
          s' = emit (PathExists ''/tmp/flagsmith-charts'' ex) s
      in if \<not> ex then discard (run_command E clone_cmd True True) s' else (Inr (), s'))"

text \<open>The values file: the scenario's own values when they are truthy, else the chart's.\<close>

definition prepare_values ::
  "env \<Rightarrow> Challenge \<Rightarrow> ChallengeManager \<Rightarrow> (exc + unit) \<times> ChallengeManager" where
  "prepare_values E challenge s =
     (if truthy (helm_values challenge) then
        (let r = write_text E (trace s) values_file (yaml_dump E (helm_values challenge))
         in (r, emit (WriteText values_file (yaml_dump E (helm_values challenge)) r) s))
      else discard (run_command E copy_values_cmd True False) s)"

definition patch_step ::
  "env \<Rightarrow> Challenge \<Rightarrow> ChallengeManager \<Rightarrow> (exc + unit) \<times> ChallengeManager" where
  "patch_step E challenge s =
     (if truthy (kubectl_patches challenge)
      then apply_kubectl_patches E (kubectl_patches challenge) s
      else (Inr (), s))"

text \<open>The body of the \<^verbatim>\<open>try\<close> block of \<^verbatim>\<open>setup_challenge\<close>, statement by statement.\<close>

definition setup_steps ::
  "env \<Rightarrow> Challenge \<Rightarrow> (ChallengeManager \<Rightarrow> (exc + unit) \<times> ChallengeManager) list" where
  "setup_steps E challenge =
     [cleanup E,
      pause 2,
      discard (run_command E (Shell (''kubectl create namespace '' @ flagsmith_namespace)) False True),
      clone_charts E,
      prepare_values E challenge,
      discard (run_command E
        (Shell ''helm repo add flagsmith https://flagsmith.github.io/flagsmith-charts/'') False True),
      discard (run_command E
        (Shell ''helm repo add bitnami https://charts.bitnami.com/bitnami'') False True),
      discard (run_command E
        (Shell ''helm repo add influxdata https://helm.influxdata.com/'') False True),
      discard (run_command E
        (Shell ''helm repo add kiwigrid https://kiwigrid.github.io/helm-charts/'') False True),
      discard (run_command E (Shell ''helm repo update'') False True),
      discard (run_command E
        (Shell ''helm dependency build /tmp/flagsmith-charts/charts/flagsmith'') False True),
      discard (run_command E helm_cmd True True),
      patch_step E challenge]"

definition setup_challenge ::
  "env \<Rightarrow> Challenge \<Rightarrow> ChallengeManager \<Rightarrow> (exc + bool) \<times> ChallengeManager" where
  "setup_challenge E challenge s =
     (case run_all (setup_steps E challenge) (s\<lparr>current_challenge := Some challenge\<rparr>) of
        (Inl e, s') \<Rightarrow> (Inr False, s')
      | (Inr _, s') \<Rightarrow> (Inr True, s'))"

subsection \<open>The health probe\<close>

text \<open>Python's \<^verbatim>\<open>str\<close> of an integer, as the f-string \<^verbatim>\<open>f"HTTP {code}"\<close> applies it.\<close>

fun str_nat :: "nat \<Rightarrow> string" where
  "str_nat n =
     (if n < 10 then [''0123456789'' ! n]
      else str_nat (n div 10) @ [''0123456789'' ! (n mod 10)])"

declare str_nat.simps [simp del]

definition str_int :: "int \<Rightarrow> string" where
  "str_int i = (if i < 0 then CHR ''-'' # str_nat (nat (- i)) else str_nat (nat i))"

definition service_cmd :: command where
  "service_cmd =
     Shell (''kubectl get service '' @ helm_release_name @ ''-api -n '' @ flagsmith_namespace)"

definition port_forward_cmd :: string where
  "port_forward_cmd =
     ''kubectl port-forward svc/'' @ helm_release_name @ ''-api '' @ str_int 8080
       @ '':8000 -n '' @ flagsmith_namespace"

definition health_url :: string where
  "health_url = ''http://localhost:'' @ str_int 8080 @ ''/health/liveness/''"

type_synonym health = "bool \<times> string \<times> int option"

text \<open>The inner \<^verbatim>\<open>try\<close> block: settle, look at the tunnel, one request, classify.\<close>

definition probe :: "env \<Rightarrow> ChallengeManager \<Rightarrow> (exc + health) \<times> ChallengeManager" where
  "probe E s =
     (let s1 = sleep 2 s;
          p = proc_poll E (trace s1);
          s2 = emit (Poll p) s1
      in case p of
           Inl e \<Rightarrow> (Inl e, s2)
         | Inr (Some rc) \<Rightarrow> (Inr (False, ''Port-forward failed'', None), s2)
         | Inr None \<Rightarrow>
             (let r = requests_get E (trace s2) health_url 5;
                  s3 = emit (HttpGet health_url 5 r) s2
              in case r of
                   Inl e \<Rightarrow> (Inl e, s3)
                 | Inr status_code \<Rightarrow>
                     if status_code = 200 then (Inr (True, ''Healthy'', Some status_code), s3)
                     else if status_code = 404
                       then (Inr (False, ''Endpoint not found'', Some status_code), s3)
                     else if status_code = 500
                       then (Inr (False, ''Server error'', Some status_code), s3)
                     else if status_code = 503
                       then (Inr (False, ''Service unavailable'', Some status_code), s3)
                     else (Inr (False, ''HTTP '' @ str_int status_code, Some status_code), s3)))"

text \<open>The innermost handler: \<^verbatim>\<open>kill()\<close>, any exception of it swallowed.\<close>

definition force_kill :: "env \<Rightarrow> ChallengeManager \<Rightarrow> (exc + unit) \<times> ChallengeManager" where
  "force_kill E s =
     (let r = proc_kill E (trace s);
          s' = emit (Kill r) s
      in case r of Inl e \<Rightarrow> (Inr (), s') | Inr _ \<Rightarrow> (Inr (), s'))"

text \<open>
  The \<^verbatim>\<open>finally\<close> block: \<^verbatim>\<open>terminate()\<close>, then \<^verbatim>\<open>wait(timeout=5)\<close>; an exception of
  either one (\<^verbatim>\<open>TimeoutExpired\<close> when the process is still there after five seconds)
  leads to \<^verbatim>\<open>kill()\<close>.
\<close>

definition release :: "env \<Rightarrow> ChallengeManager \<Rightarrow> (exc + unit) \<times> ChallengeManager" where
  "release E s =
     (let r = proc_terminate E (trace s);
          s1 = emit (Terminate r) s
      in case r of
           Inl e \<Rightarrow> force_kill E s1
         | Inr _ \<Rightarrow>
             (let w = proc_wait E (trace s1) 5;
                  s2 = emit (Wait 5 w) s1
              in case w of Inl e \<Rightarrow> force_kill E s2 | Inr _ \<Rightarrow> (Inr (), s2)))"

text \<open>The outer \<^verbatim>\<open>try\<close> block of \<^verbatim>\<open>check_health\<close>, before its handlers.\<close>

definition check_health_body ::
  "env \<Rightarrow> ChallengeManager \<Rightarrow> (exc + health) \<times> ChallengeManager" where
  "check_health_body E s =
     (case run_command E service_cmd False False s of
        (Inl e, s1) \<Rightarrow> (Inl e, s1)
      | (Inr result, s1) \<Rightarrow>
          if returncode result \<noteq> 0 then (Inr (False, ''Service not deployed'', None), s1)
          else
            (let r = popen E (trace s1) port_forward_cmd;
                 s2 = emit (Popen port_forward_cmd r) s1
             in case r of
                  Inl e \<Rightarrow> (Inl e, s2)
                | Inr _ \<Rightarrow>
                    (case probe E s2 of
                       (outcome, s3) \<Rightarrow>
                         (case release E s3 of
                            (Inl e, s4) \<Rightarrow> (Inl e, s4)
                          | (Inr _, s4) \<Rightarrow> (outcome, s4)))))"

definition check_health :: "env \<Rightarrow> ChallengeManager \<Rightarrow> (exc + health) \<times> ChallengeManager" where
  "check_health E s =
     (case check_health_body E s of
        (Inr h, s') \<Rightarrow> (Inr h, s')
      | (Inl e, s') \<Rightarrow>
          if is_ConnectTimeout e then (Inr (False, ''Connection timeout'', None), s')
          else if is_RequestsConnectionError e then (Inr (False, ''Cannot connect to service'', None), s')
          else if is_Timeout e then (Inr (False, ''Request timeout'', None), s')
          else if is_RequestException e then (Inr (False, ''Network error'', None), s')
          else (Inr (False, ''Health check failed'', None), s'))"

subsection \<open>The candidate environment and its connection descriptor\<close>

definition status_file :: string where
  "status_file = ''/tmp/tmate-info/status''"

definition ssh_file :: string where
  "ssh_file = ''/tmp/tmate-info/ssh''"

definition web_file :: string where
  "web_file = ''/tmp/tmate-info/web''"

definition file_exists :: "env \<Rightarrow> string \<Rightarrow> ChallengeManager \<Rightarrow> bool \<times> ChallengeManager" where
  "file_exists E p s =
     (let ex = path_exists E (trace s) p in (ex, emit (PathExists p ex) s))"

text \<open>\<^verbatim>\<open>path.read_text().strip()\<close>\<close>

definition read_stripped ::
  "env \<Rightarrow> string \<Rightarrow> ChallengeManager \<Rightarrow> (exc + string) \<times> ChallengeManager" where
  "read_stripped E p s =
     (let r = read_text E (trace s) p;
          s' = emit (ReadText p r) s
      in case r of Inl e \<Rightarrow> (Inl e, s') | Inr txt \<Rightarrow> (Inr (strip txt), s'))"

text \<open>\<^verbatim>\<open>f.read_text().strip() if f.exists() else None\<close>\<close>

definition read_if_exists ::
  "env \<Rightarrow> string \<Rightarrow> ChallengeManager \<Rightarrow> (exc + string option) \<times> ChallengeManager" where
  "read_if_exists E p s =
     (case file_exists E p s of
        (True, s') \<Rightarrow>
          (case read_stripped E p s' of
             (Inl e, s'') \<Rightarrow> (Inl e, s'')
           | (Inr txt, s'') \<Rightarrow> (Inr (Some txt), s''))
      | (False, s') \<Rightarrow> (Inr None, s'))"

type_synonym tmate_info = "bool \<times> string option \<times> string option"

definition get_tmate_info_body ::
  "env \<Rightarrow> ChallengeManager \<Rightarrow> (exc + tmate_info) \<times> ChallengeManager" where
  "get_tmate_info_body E s =
     (case file_exists E status_file s of
        (False, s1) \<Rightarrow> (Inr (False, None, None), s1)
      | (True, s1) \<Rightarrow>
          (case read_stripped E status_file s1 of
             (Inl e, s2) \<Rightarrow> (Inl e, s2)
           | (Inr status, s2) \<Rightarrow>
               if status \<noteq> ''ready'' then (Inr (False, None, None), s2)
               else
                 (case read_if_exists E ssh_file s2 of
                    (Inl e, s3) \<Rightarrow> (Inl e, s3)
                  | (Inr ssh_url, s3) \<Rightarrow>
                      (case read_if_exists E web_file s3 of
                         (Inl e, s4) \<Rightarrow> (Inl e, s4)
                       | (Inr web_url, s4) \<Rightarrow> (Inr (True, ssh_url, web_url), s4)))))"

text \<open>
  \<^verbatim>\<open>get_tmate_info\<close>: one poll of the descriptor. The event \<open>TmateInfo\<close> marks the call.
\<close>

definition get_tmate_info ::
  "env \<Rightarrow> ChallengeManager \<Rightarrow> (exc + tmate_info) \<times> ChallengeManager" where
  "get_tmate_info E s =
     (case get_tmate_info_body E (emit TmateInfo s) of
        (Inl e, s') \<Rightarrow> (Inr (False, None, None), s')
      | (Inr info, s') \<Rightarrow> (Inr info, s'))"

definition inspect_cmd :: command where
  "inspect_cmd =
     Shell ''docker inspect k8s_challenger-k3s-1 --format \"{{range .NetworkSettings.Networks}}{{.NetworkID}}{{end}}\"''"

definition docker_run_cmd :: "string \<Rightarrow> string \<Rightarrow> command" where
  "docker_run_cmd container network_id =
     Shell (''docker run -d --name '' @ container @ '' --network '' @ network_id @ '' ''
            @ ''--user root --rm -v k8s_challenger_k3s-server:/etc/rancher/k3s:ro ''
            @ ''-v k8s_challenger_kubeconfig-data:/home/candidate/.kube-shared:ro ''
            @ ''-v k8s_challenger_tmate-info:/tmp/tmate-info ''
            @ ''--env KUBECONFIG=/home/candidate/.kube/config k8s_challenger-candidate-env'')"

definition launch_container ::
  "env \<Rightarrow> ChallengeManager \<Rightarrow> (exc + unit) \<times> ChallengeManager" where
  "launch_container E s =
     (case run_command E inspect_cmd False False s of
        (Inl e, s') \<Rightarrow> (Inl e, s')
      | (Inr k3s_inspect, s') \<Rightarrow>
          (let network_id = (if returncode k3s_inspect = 0 then strip (stdout k3s_inspect)
                             else ''k8s_challenger_flagsmith-network'')
           in discard (run_command E
                (docker_run_cmd (candidate_container_name s') network_id) True False) s'))"

definition start_candidate_environment ::
  "env \<Rightarrow> ChallengeManager \<Rightarrow> (exc + unit) \<times> ChallengeManager" where
  "start_candidate_environment E s = run_all [cleanup E, pause 2, launch_container E] s"

section \<open>cli/main.py\<close>


text \<open>
  \<^verbatim>\<open>_check_session_failure\<close>, \<^verbatim>\<open>_setup_candidate_connection\<close> and its loops use
  \<^verbatim>\<open>self.challenge_manager\<close> and the file system only, so they are functions on the
  manager.
\<close>

definition check_session_failure ::
  "env \<Rightarrow> ChallengeManager \<Rightarrow> (exc + bool) \<times> ChallengeManager" where
  "check_session_failure E s =
     (case file_exists E status_file s of
        (True, s1) \<Rightarrow>
          (case read_stripped E status_file s1 of
             (Inl e, s2) \<Rightarrow> (Inl e, s2)
           | (Inr status, s2) \<Rightarrow> (Inr (status \<in> set [''failed'', ''timeout'']), s2))
      | (False, s1) \<Rightarrow> (Inr False, s1))"

definition max_retries :: nat where
  "max_retries = 2"

text \<open>
  The inner loop \<^verbatim>\<open>for attempt in range(10)\<close>. \<open>Inr True\<close>: the function returned
  \<^verbatim>\<open>True\<close> from inside the loop; \<open>Inr False\<close>: the loop ended, by \<^verbatim>\<open>break\<close> or at the end
  of the range.
\<close>

fun poll_loop ::
  "env \<Rightarrow> nat list \<Rightarrow> ChallengeManager \<Rightarrow> (exc + bool) \<times> ChallengeManager" where
  "poll_loop E [] s = (Inr False, s)"
| "poll_loop E (attempt # rest) s =
     (case get_tmate_info E s of
        (Inl e, s1) \<Rightarrow> (Inl e, s1)
      | (Inr (is_ready, ssh_url, web_url), s1) \<Rightarrow>
          if is_ready \<and> ssh_url \<noteq> None \<and> ssh_url \<noteq> Some [] then (Inr True, s1)
          else
            (case check_session_failure E s1 of
               (Inl e, s2) \<Rightarrow> (Inl e, s2)
             | (Inr True, s2) \<Rightarrow> (Inr False, s2)
             | (Inr False, s2) \<Rightarrow> poll_loop E rest (sleep 1 s2)))"

text \<open>The outer loop \<^verbatim>\<open>for retry in range(max_retries + 1)\<close>.\<close>

fun retry_loop ::
  "env \<Rightarrow> nat list \<Rightarrow> ChallengeManager \<Rightarrow> (exc + bool) \<times> ChallengeManager" where
  "retry_loop E [] s = (Inr False, s)"
| "retry_loop E (retry # rest) s =
     (case (if retry > 0 then run_all [start_candidate_environment E, pause 3] s
            else (Inr (), s)) of
        (Inl e, s1) \<Rightarrow> (Inl e, s1)
      | (Inr _, s1) \<Rightarrow>
          (case poll_loop E [0..<10] s1 of
             (Inl e, s2) \<Rightarrow> (Inl e, s2)
           | (Inr True, s2) \<Rightarrow> (Inr True, s2)
           | (Inr False, s2) \<Rightarrow> retry_loop E rest s2))"

definition setup_candidate_connection ::
  "env \<Rightarrow> ChallengeManager \<Rightarrow> (exc + bool) \<times> ChallengeManager" where
  "setup_candidate_connection E s = retry_loop E [0..<max_retries + 1] s"










section \<open>Traces and environments\<close>

text \<open>
  The methods only ever append to the trace. \<open>extends s s'\<close>: the state \<open>s'\<close> is \<open>s\<close>
  with a longer trace; \<open>events_of s s'\<close>: the events added on the way from \<open>s\<close> to \<open>s'\<close>.
\<close>

definition extends :: "ChallengeManager \<Rightarrow> ChallengeManager \<Rightarrow> bool" where
  "extends s s' = (\<exists>evs. s' = s\<lparr>trace := trace s @ evs\<rparr>)"

definition events_of :: "ChallengeManager \<Rightarrow> ChallengeManager \<Rightarrow> event list" where
  "events_of s s' = drop (length (trace s)) (trace s')"

text \<open>
  \<open>emits P f\<close>: the method \<open>f\<close> only appends events, and only events that satisfy \<open>P\<close>.
  \<open>emits_ok Q f\<close>: when \<open>f\<close> returns, the events it appended satisfy \<open>Q\<close>.
  \<open>occurs R f\<close>: when \<open>f\<close> returns, it has appended an event that satisfies \<open>R\<close>.
\<close>

definition emits ::
  "(event \<Rightarrow> bool) \<Rightarrow> (ChallengeManager \<Rightarrow> (exc + 'a) \<times> ChallengeManager) \<Rightarrow> bool" where
  "emits P f = (\<forall>s. extends s (snd (f s)) \<and> (\<forall>ev \<in> set (events_of s (snd (f s))). P ev))"



text \<open>The commands of the reaper: docker and docker-compose, never checked.\<close>

definition docker_event :: "event \<Rightarrow> bool" where
  "docker_event ev = (\<exists>c r. ev = Ran (Shell (''docker'' @ c)) False False r)"

text \<open>
  A world in which nothing exists yet and every command succeeds without output, and a
  freshly constructed manager.
\<close>

definition quiet_env :: env where
  "quiet_env =
     \<lparr>subprocess_run = (\<lambda>tr cmd. Inr (Completed 0 [])),
      path_exists = (\<lambda>tr p. False),
      dir_exists = (\<lambda>tr p. Inr False),
      list_dir = (\<lambda>tr p. Inr []),
      read_text = (\<lambda>tr p. Inl FileNotFoundError),
      write_text = (\<lambda>tr p txt. Inr ()),
      popen = (\<lambda>tr cmd. Inr ()),
      proc_poll = (\<lambda>tr. Inr None),
      proc_terminate = (\<lambda>tr. Inr ()),
      proc_wait = (\<lambda>tr t. Inr 0),
      proc_kill = (\<lambda>tr. Inr ()),
      requests_get = (\<lambda>tr url t. Inr 200),
      clock = (\<lambda>tr. 0),
      yaml_safe_load = (\<lambda>txt. Inr YNull),
      yaml_dump = (\<lambda>v. []),
      json_dumps = (\<lambda>v. Inr [])\<rparr>"

definition fresh_manager :: ChallengeManager where
  "fresh_manager =
     \<lparr>challenges_dir = ''/app/challenges'', challenges = [], current_challenge = None,
      candidate_container_name = ''k8s_challenger-candidate-env-0123456789ab'', trace = []\<rparr>"

text \<open>The same world without a \<^verbatim>\<open>docker-compose\<close> executable.\<close>

definition no_compose_env :: env where
  "no_compose_env =
     quiet_env\<lparr>subprocess_run :=
       (\<lambda>tr cmd. if cmd = compose_down_cmd then Inl FileNotFoundError
                  else Inr (Completed 0 []))\<rparr>"

text \<open>The events \<^verbatim>\<open>_apply_kubectl_patches\<close> can add: patch commands and warnings.\<close>

definition patch_event :: "event \<Rightarrow> bool" where
  "patch_event ev =
     ((\<exists>a b c d j r. ev = Ran (KubectlPatch a b c d j) True True r) \<or> (\<exists>a b e. ev = Warn a b e))"

text \<open>The events of the values step: the scenario's values written, or the chart's copied.\<close>

definition values_event :: "env \<Rightarrow> Challenge \<Rightarrow> event \<Rightarrow> bool" where
  "values_event E challenge ev =
     (if truthy (helm_values challenge)
      then (\<exists>r. ev = WriteText values_file (yaml_dump E (helm_values challenge)) r)
      else (\<exists>r. ev = Ran copy_values_cmd True False r))"

text \<open>The events \<^verbatim>\<open>setup_challenge\<close> can add.\<close>

definition setup_event :: "env \<Rightarrow> Challenge \<Rightarrow> event \<Rightarrow> bool" where
  "setup_event E challenge ev =
     (docker_event ev \<or> ev = Sleep 2
      \<or> (\<exists>r. ev = Ran (Shell (''kubectl create namespace '' @ flagsmith_namespace)) False True r)
      \<or> (\<exists>b. ev = PathExists ''/tmp/flagsmith-charts'' b)
      \<or> (\<exists>r. ev = Ran clone_cmd True True r)
      \<or> values_event E challenge ev
      \<or> (\<exists>c r. ev = Ran (Shell c) False True r \<and> take 5 c = ''helm '')
      \<or> (\<exists>r. ev = Ran helm_cmd True True r)
      \<or> (truthy (kubectl_patches challenge) \<and> patch_event ev))"


text \<open>
  Conditions on the world under which provisioning goes through: every shell command
  can be started, the three required commands exit with status 0, and the values file
  can be written.
\<close>

definition launchable :: "env \<Rightarrow> bool" where
  "launchable E = (\<forall>tr cmd. \<exists>cp. subprocess_run E tr (Shell cmd) = Inr cp)"


definition writable :: "env \<Rightarrow> bool" where
  "writable E = (\<forall>tr p txt. write_text E tr p txt = Inr ())"





definition helm_fails_env :: env where
  "helm_fails_env =
     quiet_env\<lparr>subprocess_run :=
       (\<lambda>tr cmd. if cmd = helm_cmd then Inr (Completed 1 []) else Inr (Completed 0 []))\<rparr>"

text \<open>
  Patch entries. \<open>skipped d\<close>: the guard of the loop body sends the entry \<open>d\<close> to
  \<^verbatim>\<open>continue\<close>. \<open>attempted E d\<close>: the command the entry leads to, if any.
  \<open>unserialisable E d\<close>: the entry passes the guard and \<^verbatim>\<open>json.dumps\<close> rejects its body.
\<close>

definition skipped :: "(yaml \<times> yaml) list \<Rightarrow> bool" where
  "skipped d =
     (\<not> truthy (dict_get d ''resource'' YNull) \<or> \<not> truthy (dict_get d ''name'' YNull)
      \<or> \<not> truthy (dict_get d ''patch'' (YMap [])))"

definition attempted :: "env \<Rightarrow> (yaml \<times> yaml) list \<Rightarrow> command list" where
  "attempted E d =
     (if skipped d then []
      else (case json_dumps E (dict_get d ''patch'' (YMap [])) of
              Inl e \<Rightarrow> []
            | Inr patch_json \<Rightarrow> [kubectl_cmd E d patch_json]))"

definition unserialisable :: "env \<Rightarrow> (yaml \<times> yaml) list \<Rightarrow> bool" where
  "unserialisable E d = (\<not> skipped d \<and> isl (json_dumps E (dict_get d ''patch'' (YMap []))))"

text \<open>The commands of a list of events, in order; warnings; commands that made \<^verbatim>\<open>_run_command\<close> raise.\<close>

fun command_of :: "event \<Rightarrow> command list" where
  "command_of (Ran c check verbose r) = [c]"
| "command_of _ = []"

definition commands_run :: "event list \<Rightarrow> command list" where
  "commands_run evs = concat (map command_of evs)"

fun is_warn :: "event \<Rightarrow> bool" where
  "is_warn (Warn a b e) = True"
| "is_warn _ = False"

fun failed_run :: "event \<Rightarrow> bool" where
  "failed_run (Ran c check verbose (Inl e)) = True"
| "failed_run (Ran c check verbose (Inr cp)) = (check \<and> returncode cp \<noteq> 0)"
| "failed_run _ = False"

text \<open>The events \<^verbatim>\<open>_apply_kubectl_patches\<close> adds on a list of dict entries.\<close>

definition patch_run :: "env \<Rightarrow> (yaml \<times> yaml) list list \<Rightarrow> ChallengeManager \<Rightarrow> event list" where
  "patch_run E ds s = events_of s (snd (apply_kubectl_patches E (YSeq (map YMap ds)) s))"

text \<open>Two entries, one of them without a name, and a world in which every command fails.\<close>

definition scale_patch :: "(yaml \<times> yaml) list" where
  "scale_patch =
     [(YStr ''resource'', YStr ''deployment''), (YStr ''name'', YStr ''flagsmith-api''),
      (YStr ''patch'', YMap [(YStr ''spec'', YMap [(YStr ''replicas'', YInt 0)])])]"

definition nameless_patch :: "(yaml \<times> yaml) list" where
  "nameless_patch =
     [(YStr ''resource'', YStr ''deployment''),
      (YStr ''patch'', YMap [(YStr ''spec'', YMap [(YStr ''replicas'', YInt 0)])])]"

definition failing_env :: env where
  "failing_env = quiet_env\<lparr>subprocess_run := (\<lambda>tr cmd. Inr (Completed 1 []))\<rparr>"

text \<open>
  The tunnel process, read off a list of events: it lives once \<^verbatim>\<open>Popen\<close> has started it,
  and no longer once \<^verbatim>\<open>poll()\<close> has reported an exit status, \<^verbatim>\<open>wait()\<close> has returned or
  \<^verbatim>\<open>kill()\<close> has sent its signal.
\<close>

fun tunnel_step :: "bool \<Rightarrow> event \<Rightarrow> bool" where
  "tunnel_step alive (Popen cmd (Inr u)) = True"
| "tunnel_step alive (Poll (Inr (Some rc))) = False"
| "tunnel_step alive (Wait t (Inr rc)) = False"
| "tunnel_step alive (Kill (Inr u)) = False"
| "tunnel_step alive ev = alive"

definition tunnel_alive :: "event list \<Rightarrow> bool" where
  "tunnel_alive evs = foldl tunnel_step False evs"

definition tunnel_started :: "event list \<Rightarrow> bool" where
  "tunnel_started evs = (\<exists>cmd. Popen cmd (Inr ()) \<in> set evs)"

text \<open>The events a call of \<^verbatim>\<open>check_health\<close> adds.\<close>

definition health_events :: "env \<Rightarrow> ChallengeManager \<Rightarrow> event list" where
  "health_events E s = events_of s (snd (check_health E s))"

text \<open>
  Worlds for the probe: the tunnel ignores the termination signal for five seconds and
  the endpoint answers 418; the service is not there.
\<close>

definition stubborn_env :: env where
  "stubborn_env =
     quiet_env\<lparr>proc_wait := (\<lambda>tr t. Inl TimeoutExpired), requests_get := (\<lambda>tr url t. Inr 418)\<rparr>"

definition no_service_env :: env where
  "no_service_env = quiet_env\<lparr>subprocess_run := (\<lambda>tr cmd. Inr (Completed 1 []))\<rparr>"

text \<open>
  \<open>probes_answer E dir\<close>: the two probes of the directory \<open>dir\<close> do not raise.
  The scenario directory as discovery finds it, when it does not change during the
  call: the directory \<open>dir\<close> exists, lists \<open>names\<close>, and reading the file \<open>f\<close> of it gives
  \<open>files f\<close>. \<open>complete E files f\<close>: the file \<open>f\<close> can be read and parsed, and its content is
  a dict with the five required fields.
\<close>

definition probes_answer :: "env \<Rightarrow> string \<Rightarrow> bool" where
  "probes_answer E dir =
     (\<forall>tr. (\<exists>ex. dir_exists E tr dir = Inr ex) \<and> (\<exists>names. list_dir E tr dir = Inr names))"

definition static_dir :: "env \<Rightarrow> string \<Rightarrow> string list \<Rightarrow> (string \<Rightarrow> exc + string) \<Rightarrow> bool" where
  "static_dir E dir names files =
     (\<forall>tr. dir_exists E tr dir = Inr True \<and> list_dir E tr dir = Inr names
           \<and> (\<forall>f. read_text E tr (join_path dir f) = files f))"

definition complete :: "env \<Rightarrow> (string \<Rightarrow> exc + string) \<Rightarrow> string \<Rightarrow> bool" where
  "complete E files f =
     (case (case files f of Inl e \<Rightarrow> Inl e | Inr txt \<Rightarrow> yaml_safe_load E txt) of
        Inr (YMap d) \<Rightarrow> (\<forall>field \<in> set required_fields. has_key d field)
      | _ \<Rightarrow> False)"

text \<open>
  A directory with a complete scenario, one without estimates, one that is not YAML, one
  that cannot be read and a file that is no scenario.
\<close>

definition good_scenario :: yaml where
  "good_scenario =
     YMap [(YStr ''name'', YStr ''Good''), (YStr ''description'', YStr ''A scenario''),
           (YStr ''helm_values'', YMap []), (YStr ''kubectl_patches'', YSeq []),
           (YStr ''estimates'', YMap [(YStr ''Lv1'', YInt 5), (YStr ''Lv2'', YInt 10),
                                      (YStr ''Lv3'', YInt 15)])]"

definition partial_scenario :: yaml where
  "partial_scenario =
     YMap [(YStr ''name'', YStr ''Partial''), (YStr ''description'', YStr ''No estimates''),
           (YStr ''helm_values'', YMap []), (YStr ''kubectl_patches'', YSeq [])]"

definition catalog_files :: "string \<Rightarrow> exc + string" where
  "catalog_files f =
     (if f = ''good.yaml'' then Inr ''good''
      else if f = ''partial.yaml'' then Inr ''partial''
      else if f = ''broken.yaml'' then Inr ''{''
      else if f = ''notes.txt'' then Inr ''notes''
      else Inl FileNotFoundError)"

definition catalog_names :: "string list" where
  "catalog_names = [''partial.yaml'', ''good.yaml'', ''notes.txt'', ''locked.yaml'', ''broken.yaml'']"

definition catalog_env :: env where
  "catalog_env =
     quiet_env\<lparr>dir_exists := (\<lambda>tr p. Inr True),
       list_dir := (\<lambda>tr p. if p = ''/app/challenges'' then Inr catalog_names else Inr []),
       read_text := (\<lambda>tr p. if take 16 p = ''/app/challenges/'' then catalog_files (drop 16 p)
                              else Inl FileNotFoundError),
       yaml_safe_load := (\<lambda>txt. if txt = ''good'' then Inr good_scenario
                                 else if txt = ''partial'' then Inr partial_scenario
                                 else if txt = ''notes'' then Inr (YStr ''notes'')
                                 else Inl YAMLError)\<rparr>"

text \<open>
  Two worlds in which a probe of the directory raises: its path cannot be examined; it is
  there but cannot be listed. The files are those of \<open>catalog_env\<close>.
\<close>

definition unsearchable_env :: env where
  "unsearchable_env = catalog_env\<lparr>dir_exists := (\<lambda>tr p. Inl OSError)\<rparr>"

definition unlistable_env :: env where
  "unlistable_env = catalog_env\<lparr>list_dir := (\<lambda>tr p. Inl OSError)\<rparr>"

text \<open>
  Counting over a list of events: the polls of the connection descriptor (calls of
  \<^verbatim>\<open>get_tmate_info\<close>), the one-second pauses, and the relaunches of the candidate
  environment, each of which begins with the reaper's \<^verbatim>\<open>docker-compose down\<close>.
\<close>

fun is_poll :: "event \<Rightarrow> bool" where
  "is_poll TmateInfo = True"
| "is_poll _ = False"

fun is_file_event :: "event \<Rightarrow> bool" where
  "is_file_event (PathExists p b) = True"
| "is_file_event (ReadText p r) = True"
| "is_file_event _ = False"

fun is_teardown :: "event \<Rightarrow> bool" where
  "is_teardown (Ran c check verbose r) = (c = compose_down_cmd)"
| "is_teardown _ = False"

definition polls :: "event list \<Rightarrow> nat" where
  "polls evs = length (filter is_poll evs)"

definition pauses :: "event list \<Rightarrow> nat" where
  "pauses evs = length (filter (\<lambda>ev. ev = Sleep 1) evs)"

definition relaunches :: "event list \<Rightarrow> nat" where
  "relaunches evs = length (filter is_teardown evs)"

definition connection_events :: "env \<Rightarrow> ChallengeManager \<Rightarrow> event list" where
  "connection_events E s = events_of s (snd (setup_candidate_connection E s))"

text \<open>
  Worlds in which the descriptor stays pending for ever, and worlds in which every command
  exits with status 0. \<open>pending_env\<close> is both, and the manual of \<open>plain_challenge\<close> can be
  read there.
\<close>

definition stays_pending :: "env \<Rightarrow> bool" where
  "stays_pending E =
     (\<forall>tr. path_exists E tr status_file \<and> read_text E tr status_file = Inr ''pending'')"

definition commands_succeed :: "env \<Rightarrow> bool" where
  "commands_succeed E = (\<forall>tr cmd. \<exists>out. subprocess_run E tr cmd = Inr (Completed 0 out))"

definition pending_env :: env where
  "pending_env =
     quiet_env\<lparr>path_exists := (\<lambda>tr p. p = status_file),
       read_text := (\<lambda>tr p. if p = status_file then Inr ''pending''
                              else if p = ''/app/challenges/plain.md'' then Inr ''Manual''
                              else Inl FileNotFoundError)\<rparr>"




text \<open>\<open>grows s s'\<close>: the trace of \<open>s'\<close> continues the trace of \<open>s\<close>.\<close>

definition grows :: "ChallengeManager \<Rightarrow> ChallengeManager \<Rightarrow> bool" where
  "grows s s' = (\<exists>evs. trace s' = trace s @ evs)"


section \<open>Properties\<close>

subsection \<open>Traces\<close>

lemma extends_refl [simp]: "extends s s"
  unfolding extends_def by (rule exI[of _ "[]"]) simp

lemma extends_emit [simp]: "extends s (emit ev s)"
  unfolding extends_def emit_def by blast

lemma extends_trans: "extends s s' \<Longrightarrow> extends s' s'' \<Longrightarrow> extends s s''"
  by (auto simp: extends_def)

lemma extendsD: "extends s s' \<Longrightarrow> trace s' = trace s @ events_of s s'"
  by (auto simp: extends_def events_of_def)

lemma extends_fields:
  "extends s s' \<Longrightarrow> current_challenge s' = current_challenge s \<and> challenges s' = challenges s
     \<and> challenges_dir s' = challenges_dir s \<and> candidate_container_name s' = candidate_container_name s"
  by (auto simp: extends_def)

lemma events_of_trans:
  "extends s s' \<Longrightarrow> extends s' s'' \<Longrightarrow> events_of s s'' = events_of s s' @ events_of s' s''"
  by (auto simp: extends_def events_of_def)

lemma events_of_emit [simp]: "events_of s (emit ev s) = [ev]"
  by (simp add: events_of_def emit_def)

lemma events_of_refl [simp]: "events_of s s = []"
  by (simp add: events_of_def)

lemma emitsI:
  assumes "\<And>s. extends s (snd (f s))"
    and "\<And>s ev. ev \<in> set (events_of s (snd (f s))) \<Longrightarrow> P ev"
  shows "emits P f"
  using assms by (simp add: emits_def)

lemma emits_extends: "emits P f \<Longrightarrow> extends s (snd (f s))"
  by (simp add: emits_def)

lemma emits_event: "emits P f \<Longrightarrow> ev \<in> set (events_of s (snd (f s))) \<Longrightarrow> P ev"
  by (simp add: emits_def)

lemma emits_mono: "emits P f \<Longrightarrow> (\<And>ev. P ev \<Longrightarrow> Q ev) \<Longrightarrow> emits Q f"
  by (simp add: emits_def)

lemma run_command_state:
  "snd (run_command E cmd check verbose s) = emit (Ran cmd check verbose (subprocess_run E (trace s) cmd)) s"
  by (simp add: run_command_def Let_def split: sum.splits)

lemma emits_run_command:
  "(\<And>r. P (Ran cmd check verbose r)) \<Longrightarrow> emits P (run_command E cmd check verbose)"
  by (simp add: emits_def run_command_state)

lemma discard_state [simp]: "snd (discard f s) = snd (f s)"
  by (simp add: discard_def split: prod.splits sum.splits)


lemma emits_discard: "emits P f \<Longrightarrow> emits P (discard f)"
  by (simp add: emits_def)

lemma emits_pause: "P (Sleep n) \<Longrightarrow> emits P (pause n)"
  by (simp add: emits_def pause_def sleep_def)

lemma emits_seq:
  assumes "extends s s'" "\<forall>ev \<in> set (events_of s s'). P ev"
    and "extends s' s''" "\<forall>ev \<in> set (events_of s' s''). P ev"
  shows "extends s s'' \<and> (\<forall>ev \<in> set (events_of s s''). P ev)"
proof
  show "extends s s''" using assms(1,3) by (rule extends_trans)
  have "events_of s s'' = events_of s s' @ events_of s' s''"
    using assms(1,3) by (rule events_of_trans)
  with assms(2,4) show "\<forall>ev \<in> set (events_of s s''). P ev" by auto
qed

lemma run_all_emits_aux:
  "(\<forall>f \<in> set fs. emits P f) \<Longrightarrow>
     extends s (snd (run_all fs s)) \<and> (\<forall>ev \<in> set (events_of s (snd (run_all fs s))). P ev)"
proof (induction fs arbitrary: s)
  case Nil
  then show ?case by simp
next
  case (Cons f fs)
  obtain r s' where fs: "f s = (r, s')" by (cases "f s")
  from Cons.prems have "emits P f" by simp
  from emits_extends[OF this, of s] emits_event[OF this, of _ s] fs
  have f: "extends s s'" "\<forall>ev \<in> set (events_of s s'). P ev"
    by auto
  show ?case
  proof (cases r)
    case (Inl e)
    with fs f show ?thesis by simp
  next
    case (Inr u)
    from Cons.prems have "\<forall>f \<in> set fs. emits P f" by simp
    from Cons.IH[OF this, of s']
    have g: "extends s' (snd (run_all fs s'))" "\<forall>ev \<in> set (events_of s' (snd (run_all fs s'))). P ev"
      by auto
    from emits_seq[OF f(1) f(2) g(1) g(2)] fs Inr show ?thesis by simp
  qed
qed

lemma emits_run_all: "(\<forall>f \<in> set fs. emits P f) \<Longrightarrow> emits P (run_all fs)"
  by (rule emitsI) (simp_all add: run_all_emits_aux)

lemma emits_remove_containers_aux:
  assumes rm: "\<And>c r. P (Ran (Shell (''docker rm -f '' @ c)) False False r)"
  shows "extends s (snd (remove_containers E ids s)) \<and>
   (\<forall>ev \<in> set (events_of s (snd (remove_containers E ids s))). P ev)"
proof (induction ids arbitrary: s)
  case Nil
  then show ?case by simp
next
  case (Cons i ids)
  show ?case
  proof (cases "strip i \<noteq> []")
    case False
    with Cons.IH[of s] show ?thesis by simp
  next
    case True
    let ?c = "Shell (''docker rm -f '' @ strip i)"
    obtain r s' where rc: "run_command E ?c False False s = (r, s')"
      by (cases "run_command E ?c False False s")
    have em: "emits P (run_command E ?c False False)"
      by (rule emits_run_command) (rule rm)
    from emits_extends[OF em, of s] emits_event[OF em, of _ s] rc
    have f: "extends s s'" "\<forall>ev \<in> set (events_of s s'). P ev"
      by auto
    show ?thesis
    proof (cases r)
      case (Inl e)
      with rc True f show ?thesis by simp
    next
      case (Inr cp)
      from Cons.IH[of s']
      have g: "extends s' (snd (remove_containers E ids s'))"
        "\<forall>ev \<in> set (events_of s' (snd (remove_containers E ids s'))). P ev"
        by auto
      from emits_seq[OF f(1) f(2) g(1) g(2)] rc True Inr show ?thesis by simp
    qed
  qed
qed




lemma run_all_Cons_state:
  "fst (f s) = Inr u \<Longrightarrow> run_all (f # fs) s = run_all fs (snd (f s))"
  by (cases "f s") (auto split: sum.splits)



lemma run_all_success:
  "(\<forall>f \<in> set fs. \<forall>s. \<exists>u. fst (f s) = Inr u) \<Longrightarrow> \<exists>u. fst (run_all fs s) = Inr u"
proof (induction fs arbitrary: s)
  case Nil
  then show ?case by simp
next
  case (Cons f fs)
  then obtain u where u: "fst (f s) = Inr u" by (meson list.set_intros(1))
  from Cons have "\<exists>u. fst (run_all fs (snd (f s))) = Inr u" by simp
  with run_all_Cons_state[where f=f and s=s and fs=fs, OF u] show ?case by simp
qed

subsection \<open>cleanup\<close>

lemma force_cleanup_never_raises: "fst (force_cleanup_containers E s) = Inr ()"
  by (simp add: force_cleanup_containers_def split: prod.splits sum.splits)

lemma docker_event_ps: "docker_event (Ran docker_ps_cmd False False r)"
  unfolding docker_event_def docker_ps_cmd_def
  by (rule exI[of _ "'' ps -a --filter \"name=k8s_challenger-candidate-env\" --format \"{{.ID}}\"''"]) simp

lemma docker_event_compose: "docker_event (Ran compose_down_cmd False False r)"
  unfolding docker_event_def compose_down_cmd_def
  by (rule exI[of _ "''-compose down --volumes --remove-orphans''"]) simp

lemma force_cleanup_state:
  "snd (force_cleanup_containers E s) =
     (case run_command E docker_ps_cmd False False s of
        (Inl e, s') \<Rightarrow> s'
      | (Inr result, s') \<Rightarrow>
          if returncode result = 0 \<and> strip (stdout result) \<noteq> []
          then snd (remove_containers E (split_nl (strip (stdout result))) s') else s')"
  by (simp add: force_cleanup_containers_def split: prod.splits sum.splits)

lemma emits_force_cleanup_general:
  assumes rm: "\<And>c r. P (Ran (Shell (''docker rm -f '' @ c)) False False r)"
    and ps: "\<And>r. P (Ran docker_ps_cmd False False r)"
  shows "emits P (force_cleanup_containers E)"
proof (rule emitsI)
  fix s
  let ?p = "run_command E docker_ps_cmd False False"
  have em: "emits P ?p"
    by (rule emits_run_command) (rule ps)
  obtain r s' where rs: "?p s = (r, s')" by (cases "?p s")
  from emits_extends[OF em, of s] emits_event[OF em, of _ s] rs
  have f: "extends s s'" "\<forall>ev \<in> set (events_of s s'). P ev" by auto
  have g: "extends s' (snd (remove_containers E ids s'))"
    "\<forall>ev \<in> set (events_of s' (snd (remove_containers E ids s'))). P ev" for ids
    using emits_remove_containers_aux[of P, OF rm] by blast+
  have "extends s (snd (force_cleanup_containers E s)) \<and>
        (\<forall>ev \<in> set (events_of s (snd (force_cleanup_containers E s))). P ev)"
  proof (cases r)
    case (Inl e)
    with rs f show ?thesis by (simp add: force_cleanup_state)
  next
    case (Inr result)
    show ?thesis
    proof (cases "returncode result = 0 \<and> strip (stdout result) \<noteq> []")
      case True
      from emits_seq[OF f(1) f(2) g(1) g(2), of "split_nl (strip (stdout result))"]
      show ?thesis using rs Inr True by (simp add: force_cleanup_state)
    next
      case False
      with rs Inr f show ?thesis by (auto simp add: force_cleanup_state)
    qed
  qed
  then show "extends s (snd (force_cleanup_containers E s))"
    and "\<And>ev. ev \<in> set (events_of s (snd (force_cleanup_containers E s))) \<Longrightarrow> P ev"
    by auto
qed

lemma docker_event_rm: "docker_event (Ran (Shell (''docker rm -f '' @ c)) False False r)"
  unfolding docker_event_def by (rule exI[of _ "'' rm -f '' @ c"]) simp

lemma emits_force_cleanup: "emits docker_event (force_cleanup_containers E)"
  by (rule emits_force_cleanup_general) (rule docker_event_rm, rule docker_event_ps)

lemma emits_cleanup: "emits docker_event (cleanup E)"
proof (rule emitsI)
  fix s
  let ?p = "run_command E compose_down_cmd False False"
  have em: "emits docker_event ?p"
    by (rule emits_run_command) (rule docker_event_compose)
  obtain r s' where rs: "?p s = (r, s')" by (cases "?p s")
  from emits_extends[OF em, of s] emits_event[OF em, of _ s] rs
  have f: "extends s s'" "\<forall>ev \<in> set (events_of s s'). docker_event ev" by auto
  have g: "extends s' (snd (force_cleanup_containers E s'))"
    "\<forall>ev \<in> set (events_of s' (snd (force_cleanup_containers E s'))). docker_event ev"
    using emits_force_cleanup[of E] by (auto simp: emits_def)
  have "extends s (snd (cleanup E s)) \<and>
        (\<forall>ev \<in> set (events_of s (snd (cleanup E s))). docker_event ev)"
  proof (cases r)
    case (Inl e)
    with rs f show ?thesis by (simp add: cleanup_def)
  next
    case (Inr cp)
    from emits_seq[OF f(1) f(2) g(1) g(2)] rs Inr show ?thesis by (simp add: cleanup_def)
  qed
  then show "extends s (snd (cleanup E s))"
    and "\<And>ev. ev \<in> set (events_of s (snd (cleanup E s))) \<Longrightarrow> docker_event ev"
    by auto
qed

lemma cleanup_result:
  "fst (cleanup E s) = (case subprocess_run E (trace s) compose_down_cmd of
                          Inl e \<Rightarrow> Inl e | Inr cp \<Rightarrow> Inr ())"
  by (simp add: cleanup_def run_command_def Let_def force_cleanup_never_raises
           split: sum.splits prod.splits)

lemma extends_emit_after [simp]: "extends s s' \<Longrightarrow> extends s (emit ev s')"
  by (rule extends_trans[OF _ extends_emit])

lemma events_of_emit_after [simp]:
  "extends s s' \<Longrightarrow> events_of s (emit ev s') = events_of s s' @ [ev]"
  using events_of_trans[OF _ extends_emit, of s s' ev] by simp

subsection \<open>Provisioning: which events each step adds\<close>

lemma emits_patch_iteration: "emits patch_event (patch_iteration E patch bound)"
proof (rule emitsI)
  fix s
  have run: "extends s (snd (run_command E c True True s))"
    "events_of s (snd (run_command E c True True s)) = [Ran c True True (subprocess_run E (trace s) c)]"
    for c
    by (simp_all add: run_command_state)
  show "extends s (snd (patch_iteration E patch bound s))"
    by (cases patch)
       (auto simp: patch_iteration_def Let_def run_command_def
             split: option.splits sum.splits prod.splits)
  fix ev
  assume "ev \<in> set (events_of s (snd (patch_iteration E patch bound s)))"
  then show "patch_event ev"
    by (cases patch)
       (auto simp: patch_iteration_def Let_def run_command_def patch_event_def kubectl_cmd_def
             split: option.splits sum.splits prod.splits if_splits)
qed

lemma emits_apply_patch_loop_aux:
  "extends s (snd (apply_patch_loop E ps bound s)) \<and>
   (\<forall>ev \<in> set (events_of s (snd (apply_patch_loop E ps bound s))). patch_event ev)"
proof (induction ps arbitrary: bound s)
  case Nil
  then show ?case by simp
next
  case (Cons p ps)
  obtain r s' where rs: "patch_iteration E p bound s = (r, s')"
    by (cases "patch_iteration E p bound s")
  from emits_extends[OF emits_patch_iteration, of s E p bound]
       emits_event[OF emits_patch_iteration, of _ s E p bound] rs
  have f: "extends s s'" "\<forall>ev \<in> set (events_of s s'). patch_event ev" by auto
  show ?case
  proof (cases r)
    case (Inl e)
    with rs f show ?thesis by simp
  next
    case (Inr b)
    from Cons.IH[of s' b]
    have g: "extends s' (snd (apply_patch_loop E ps b s'))"
      "\<forall>ev \<in> set (events_of s' (snd (apply_patch_loop E ps b s'))). patch_event ev"
      by auto
    from emits_seq[OF f g] rs Inr show ?thesis by simp
  qed
qed

lemma emits_apply_kubectl_patches: "emits patch_event (apply_kubectl_patches E patches)"
  by (rule emitsI)
     (auto simp: apply_kubectl_patches_def emits_apply_patch_loop_aux split: sum.splits)

lemma emits_patch_step:
  "emits (\<lambda>ev. truthy (kubectl_patches challenge) \<and> patch_event ev) (patch_step E challenge)"
proof (cases "truthy (kubectl_patches challenge)")
  case True
  then have "patch_step E challenge = apply_kubectl_patches E (kubectl_patches challenge)"
    by (auto simp: patch_step_def)
  with True emits_apply_kubectl_patches[of E "kubectl_patches challenge"] show ?thesis
    by (simp add: emits_def)
next
  case False
  then show ?thesis by (simp add: emits_def patch_step_def)
qed

lemma emits_clone_charts:
  "emits (\<lambda>ev. (\<exists>b. ev = PathExists ''/tmp/flagsmith-charts'' b) \<or> (\<exists>r. ev = Ran clone_cmd True True r))
     (clone_charts E)"
proof (rule emitsI)
  fix s :: ChallengeManager
  let ?ex = "path_exists E (trace s) ''/tmp/flagsmith-charts''"
  let ?s1 = "emit (PathExists ''/tmp/flagsmith-charts'' ?ex) s"
  have st: "snd (clone_charts E s) =
      (if \<not> ?ex then emit (Ran clone_cmd True True (subprocess_run E (trace ?s1) clone_cmd)) ?s1 else ?s1)"
    by (simp add: clone_charts_def Let_def run_command_state)
  show "extends s (snd (clone_charts E s))"
    by (simp add: st)
  fix ev
  assume "ev \<in> set (events_of s (snd (clone_charts E s)))"
  then show "(\<exists>b. ev = PathExists ''/tmp/flagsmith-charts'' b) \<or> (\<exists>r. ev = Ran clone_cmd True True r)"
    by (auto simp: st split: if_splits)
qed

lemma emits_prepare_values: "emits (values_event E challenge) (prepare_values E challenge)"
  by (rule emitsI)
     (auto simp: prepare_values_def values_event_def Let_def run_command_state)

lemma emits_setup_steps: "\<forall>f \<in> set (setup_steps E challenge). emits (setup_event E challenge) f"
proof -
  have kc: "emits (setup_event E challenge)
      (discard (run_command E (Shell (''kubectl create namespace '' @ flagsmith_namespace)) False True))"
    by (rule emits_discard, rule emits_run_command) (simp add: setup_event_def)
  have repo: "emits (setup_event E challenge) (discard (run_command E (Shell (''helm '' @ c)) False True))" for c
    by (rule emits_discard, rule emits_run_command) (simp add: setup_event_def)
  have helm: "emits (setup_event E challenge) (discard (run_command E helm_cmd True True))"
    by (rule emits_discard, rule emits_run_command) (simp add: setup_event_def)
  have cl: "emits (setup_event E challenge) (cleanup E)"
    by (rule emits_mono[OF emits_cleanup]) (simp add: setup_event_def)
  have pa: "emits (setup_event E challenge) (pause 2)"
    by (rule emits_pause) (simp add: setup_event_def)
  have cc: "emits (setup_event E challenge) (clone_charts E)"
    by (rule emits_mono[OF emits_clone_charts]) (auto simp: setup_event_def)
  have pv: "emits (setup_event E challenge) (prepare_values E challenge)"
    by (rule emits_mono[OF emits_prepare_values]) (simp add: setup_event_def)
  have ps: "emits (setup_event E challenge) (patch_step E challenge)"
    by (rule emits_mono[OF emits_patch_step]) (simp add: setup_event_def)
  show ?thesis
    using kc cl pa cc pv ps helm
      repo[of "''repo add flagsmith https://flagsmith.github.io/flagsmith-charts/''"]
      repo[of "''repo add bitnami https://charts.bitnami.com/bitnami''"]
      repo[of "''repo add influxdata https://helm.influxdata.com/''"]
      repo[of "''repo add kiwigrid https://kiwigrid.github.io/helm-charts/''"]
      repo[of "''repo update''"]
      repo[of "''dependency build /tmp/flagsmith-charts/charts/flagsmith''"]
    by (simp add: setup_steps_def)
qed

lemma setup_challenge_state:
  "snd (setup_challenge E challenge s) =
     snd (run_all (setup_steps E challenge) (s\<lparr>current_challenge := Some challenge\<rparr>))"
  by (simp add: setup_challenge_def split: prod.splits sum.splits)


lemma setup_challenge_extends:
  "extends (s\<lparr>current_challenge := Some challenge\<rparr>) (snd (setup_challenge E challenge s))"
  unfolding setup_challenge_state
  using emits_run_all[OF emits_setup_steps] by (rule emits_extends)

text \<open>
  C10. \<^verbatim>\<open>setup_challenge(c)\<close> assigns \<^verbatim>\<open>current_challenge\<close> before its \<^verbatim>\<open>try\<close> block and no
  step of the block touches the field: whatever the world does and whatever the call
  returns, the manager's current challenge is \<open>c\<close> afterwards, and everything the call did
  to the world was done after the assignment.
\<close>

theorem setup_challenge_sets_current_challenge:
  "current_challenge (snd (setup_challenge E c s)) = Some c
   \<and> trace (snd (setup_challenge E c s))
       = trace s @ events_of (s\<lparr>current_challenge := Some c\<rparr>) (snd (setup_challenge E c s))"
  using extends_fields[OF setup_challenge_extends[where challenge=c and s=s and E=E]]
        extendsD[OF setup_challenge_extends[where challenge=c and s=s and E=E]]
  by simp

subsection \<open>The reaper\<close>

lemma cleanup_returns_when_launched:
  "subprocess_run E (trace s) compose_down_cmd = Inr cp \<Longrightarrow> fst (cleanup E s) = Inr ()"
  by (simp add: cleanup_result)

lemma cleanup_raises_when_not_launched:
  "subprocess_run E (trace s) compose_down_cmd = Inl e \<Longrightarrow>
     cleanup E s = (Inl e, emit (Ran compose_down_cmd False False (Inl e)) s)"
  by (simp add: cleanup_def run_command_def Let_def)

text \<open>
  C7. The container sweep swallows every exception, and a non-zero exit status of
  \<^verbatim>\<open>docker-compose down\<close> is tolerated; but \<^verbatim>\<open>_cleanup\<close> runs that first command outside
  any \<^verbatim>\<open>try\<close>. Where \<^verbatim>\<open>docker-compose\<close> cannot be started, \<^verbatim>\<open>subprocess.run\<close> raises
  \<^verbatim>\<open>FileNotFoundError\<close>: the reaper fails its caller with that exception, and the sweep
  (\<^verbatim>\<open>docker ps\<close>, \<^verbatim>\<open>docker rm\<close>) is never reached.
\<close>

theorem cleanup_raises_without_docker_compose:
  "cleanup no_compose_env fresh_manager =
     (Inl FileNotFoundError,
      fresh_manager\<lparr>trace := [Ran compose_down_cmd False False (Inl FileNotFoundError)]\<rparr>)"
  by (simp add: cleanup_def run_command_def no_compose_env_def quiet_env_def
                fresh_manager_def emit_def Let_def)

lemma events_of_append [simp]: "events_of s (s\<lparr>trace := trace s @ evs\<rparr>) = evs"
  by (simp add: events_of_def)

subsection \<open>Provisioning: the result\<close>

lemma run_command_events [simp]:
  "events_of s (snd (run_command E cmd check verbose s)) =
     [Ran cmd check verbose (subprocess_run E (trace s) cmd)]"
  by (simp add: run_command_state)




















text \<open>Under the conditions on the world every step returns, and so does the block.\<close>

lemma patch_iteration_dict_returns: "\<exists>b. fst (patch_iteration E (YMap d) bound s) = Inr b"
  by (auto simp: patch_iteration_def Let_def split: sum.splits prod.splits)

lemma apply_patch_loop_dicts_return:
  "fst (apply_patch_loop E (map YMap ds) bound s) = Inr ()"
proof (induction ds arbitrary: bound s)
  case Nil
  then show ?case by simp
next
  case (Cons d ds)
  obtain r s' where rs: "patch_iteration E (YMap d) bound s = (r, s')"
    by (cases "patch_iteration E (YMap d) bound s")
  with patch_iteration_dict_returns[of E d bound s] obtain b where "r = Inr b" by auto
  with rs Cons.IH[of b s'] show ?case by simp
qed


lemma cleanup_returns: "launchable E \<Longrightarrow> fst (cleanup E s) = Inr ()"
proof -
  assume "launchable E"
  then obtain cp where "subprocess_run E (trace s) compose_down_cmd = Inr cp"
    unfolding launchable_def compose_down_cmd_def by blast
  then show ?thesis by (simp add: cleanup_result)
qed






lemma helm_fails_env_conditions: "launchable helm_fails_env \<and> writable helm_fails_env"
  by (simp add: launchable_def writable_def helm_fails_env_def quiet_env_def)





subsection \<open>Provisioning: the values file\<close>






subsection \<open>Patches\<close>

lemma patch_iteration_dict_events:
  "events_of s (snd (patch_iteration E (YMap d) bound s)) =
     (if skipped d then []
      else (case json_dumps E (dict_get d ''patch'' (YMap [])) of
              Inl e \<Rightarrow> [Warn (dict_get d ''resource'' YNull) (dict_get d ''name'' YNull) e]
            | Inr js \<Rightarrow>
                (case subprocess_run E (trace s) (kubectl_cmd E d js) of
                   Inl e \<Rightarrow> [Ran (kubectl_cmd E d js) True True (Inl e),
                             Warn (dict_get d ''resource'' YNull) (dict_get d ''name'' YNull) e]
                 | Inr cp \<Rightarrow>
                     if returncode cp \<noteq> 0
                     then [Ran (kubectl_cmd E d js) True True (Inr cp),
                           Warn (dict_get d ''resource'' YNull) (dict_get d ''name'' YNull)
                             CalledProcessError]
                     else [Ran (kubectl_cmd E d js) True True (Inr cp)])))"
  by (auto simp: patch_iteration_def skipped_def Let_def run_command_def emit_def events_of_def
           split: sum.splits)

lemma patch_iteration_dict_commands:
  "commands_run (events_of s (snd (patch_iteration E (YMap d) bound s))) = attempted E d"
  by (simp add: patch_iteration_dict_events commands_run_def attempted_def split: sum.splits)

lemma patch_iteration_dict_warnings:
  "length (filter is_warn (events_of s (snd (patch_iteration E (YMap d) bound s)))) =
     length (filter failed_run (events_of s (snd (patch_iteration E (YMap d) bound s))))
     + (if unserialisable E d then 1 else 0)"
  by (simp add: patch_iteration_dict_events unserialisable_def split: sum.splits)

lemma apply_patch_loop_dicts:
  "commands_run (events_of s (snd (apply_patch_loop E (map YMap ds) bound s)))
     = concat (map (attempted E) ds)
   \<and> length (filter is_warn (events_of s (snd (apply_patch_loop E (map YMap ds) bound s))))
     = length (filter failed_run (events_of s (snd (apply_patch_loop E (map YMap ds) bound s))))
       + length (filter (unserialisable E) ds)"
proof (induction ds arbitrary: bound s)
  case Nil
  then show ?case by (simp add: commands_run_def)
next
  case (Cons d ds)
  obtain r s' where rs: "patch_iteration E (YMap d) bound s = (r, s')"
    by (cases "patch_iteration E (YMap d) bound s")
  with patch_iteration_dict_returns[of E d bound s] obtain b where b: "r = Inr b" by auto
  have e1: "extends s s'"
    using emits_extends[OF emits_patch_iteration, of s E "YMap d" bound] rs by simp
  have e2: "extends s' (snd (apply_patch_loop E (map YMap ds) b s'))"
    using emits_apply_patch_loop_aux by blast
  have split: "events_of s (snd (apply_patch_loop E (map YMap (d # ds)) bound s)) =
      events_of s s' @ events_of s' (snd (apply_patch_loop E (map YMap ds) b s'))"
    using events_of_trans[OF e1 e2] rs b by simp
  have c1: "commands_run (events_of s s') = attempted E d"
    using patch_iteration_dict_commands[of s E d bound] rs by simp
  have w1: "length (filter is_warn (events_of s s')) =
      length (filter failed_run (events_of s s')) + (if unserialisable E d then 1 else 0)"
    using patch_iteration_dict_warnings[of s E d bound] rs by simp
  show ?case
    unfolding split using Cons.IH[of s' b] c1 w1 by (simp add: commands_run_def)
qed

lemma skipped_entries_no_events:
  "(\<forall>d \<in> set ds. skipped d) \<Longrightarrow> snd (apply_patch_loop E (map YMap ds) bound s) = s"
proof (induction ds arbitrary: bound)
  case Nil
  then show ?case by simp
next
  case (Cons d ds)
  then have "skipped d" by simp
  then have "patch_iteration E (YMap d) bound s =
      (Inr (Some (dict_get d ''resource'' YNull, dict_get d ''name'' YNull)), s)"
    by (auto simp: patch_iteration_def skipped_def Let_def)
  with Cons show ?case by simp
qed

lemma missing_field_skipped:
  "\<not> has_key d ''resource'' \<or> \<not> has_key d ''name'' \<or> dict_get d ''patch'' (YMap []) = YMap []
     \<Longrightarrow> skipped d"
  by (auto simp: skipped_def has_key_def dict_get_def)

text \<open>
  On a patch set of the declared type, a list of dicts, \<^verbatim>\<open>_apply_kubectl_patches\<close> returns
  without raising, whatever the commands do. The commands it runs are, in the order of the list,
  those of the entries that pass the guard and whose body serialises: which commands are
  attempted does not depend on how earlier ones ended. An entry without \<^verbatim>\<open>resource\<close>,
  without \<^verbatim>\<open>name\<close> or with an empty \<^verbatim>\<open>patch\<close> leads to no command, and a list of skipped
  entries to no event at all, so to no warning either. Without a \<^verbatim>\<open>patch_type\<close> key the
  command is built with \<^verbatim>\<open>--type merge\<close>. Each failure is answered by one warning: the
  warnings are as many as the failed commands and the unserialisable bodies together.
\<close>

lemma dict_patches_in_order:
  "fst (apply_kubectl_patches E (YSeq (map YMap ds)) s) = Inr ()
   \<and> commands_run (patch_run E ds s) = concat (map (attempted E) ds)
   \<and> (\<forall>d. \<not> has_key d ''resource'' \<or> \<not> has_key d ''name''
            \<or> dict_get d ''patch'' (YMap []) = YMap [] \<longrightarrow> attempted E d = [])
   \<and> ((\<forall>d \<in> set ds. skipped d) \<longrightarrow> patch_run E ds s = [])
   \<and> (\<forall>d js. \<not> has_key d ''patch_type'' \<longrightarrow>
         (\<exists>res nm ns. kubectl_cmd E d js = KubectlPatch res nm ns (YStr ''merge'') js))
   \<and> length (filter is_warn (patch_run E ds s))
       = length (filter failed_run (patch_run E ds s)) + length (filter (unserialisable E) ds)"
proof (intro conjI)
  show "fst (apply_kubectl_patches E (YSeq (map YMap ds)) s) = Inr ()"
    by (simp add: apply_kubectl_patches_def apply_patch_loop_dicts_return)
  show "commands_run (patch_run E ds s) = concat (map (attempted E) ds)"
    using apply_patch_loop_dicts[of s E ds None]
    by (simp add: patch_run_def apply_kubectl_patches_def)
  show "\<forall>d. \<not> has_key d ''resource'' \<or> \<not> has_key d ''name''
            \<or> dict_get d ''patch'' (YMap []) = YMap [] \<longrightarrow> attempted E d = []"
    using missing_field_skipped by (simp add: attempted_def)
  show "(\<forall>d \<in> set ds. skipped d) \<longrightarrow> patch_run E ds s = []"
    by (simp add: patch_run_def apply_kubectl_patches_def skipped_entries_no_events)
  show "\<forall>d js. \<not> has_key d ''patch_type'' \<longrightarrow>
         (\<exists>res nm ns. kubectl_cmd E d js = KubectlPatch res nm ns (YStr ''merge'') js)"
    by (auto simp: kubectl_cmd_def has_key_def dict_get_def)
  show "length (filter is_warn (patch_run E ds s))
       = length (filter failed_run (patch_run E ds s)) + length (filter (unserialisable E) ds)"
    using apply_patch_loop_dicts[of s E ds None]
    by (simp add: patch_run_def apply_kubectl_patches_def)
qed

lemma scale_patch_attempted:
  "attempted failing_env scale_patch =
     [KubectlPatch (YStr ''deployment'') (YStr ''flagsmith-api'') (YStr ''flagsmith'') (YStr ''merge'') []]"
  by (simp add: attempted_def skipped_def scale_patch_def dict_get_def kubectl_cmd_def
                failing_env_def quiet_env_def flagsmith_namespace_def)

lemma dict_patches_in_order_example:
  "\<not> has_key nameless_patch ''name''
   \<and> \<not> has_key scale_patch ''patch_type''
   \<and> skipped nameless_patch
   \<and> patch_run failing_env [nameless_patch] fresh_manager = []
   \<and> commands_run (patch_run failing_env [scale_patch, nameless_patch, scale_patch] fresh_manager)
       = [KubectlPatch (YStr ''deployment'') (YStr ''flagsmith-api'') (YStr ''flagsmith'') (YStr ''merge'') [],
          KubectlPatch (YStr ''deployment'') (YStr ''flagsmith-api'') (YStr ''flagsmith'') (YStr ''merge'') []]
   \<and> fst (apply_kubectl_patches failing_env
             (YSeq (map YMap [scale_patch, nameless_patch, scale_patch])) fresh_manager) = Inr ()"
proof -
  note one = dict_patches_in_order[where E=failing_env and ds="[nameless_patch]" and s=fresh_manager]
  note three = dict_patches_in_order[where E=failing_env
      and ds="[scale_patch, nameless_patch, scale_patch]" and s=fresh_manager]
  have n: "\<not> has_key nameless_patch ''name''"
    by (simp add: has_key_def nameless_patch_def)
  have t: "\<not> has_key scale_patch ''patch_type''"
    by (simp add: has_key_def scale_patch_def)
  from n have sk: "skipped nameless_patch"
    by (simp add: missing_field_skipped)
  then have "\<forall>d \<in> set [nameless_patch]. skipped d" by simp
  from one[THEN conjunct2, THEN conjunct2, THEN conjunct2, THEN conjunct1, THEN mp, OF this]
  have none: "patch_run failing_env [nameless_patch] fresh_manager = []" .
  from three[THEN conjunct2, THEN conjunct2, THEN conjunct1, rule_format, of nameless_patch] n
  have "attempted failing_env nameless_patch = []" by simp
  with three[THEN conjunct2, THEN conjunct1] scale_patch_attempted
  have cmds: "commands_run (patch_run failing_env [scale_patch, nameless_patch, scale_patch] fresh_manager)
       = [KubectlPatch (YStr ''deployment'') (YStr ''flagsmith-api'') (YStr ''flagsmith'') (YStr ''merge'') [],
          KubectlPatch (YStr ''deployment'') (YStr ''flagsmith-api'') (YStr ''flagsmith'') (YStr ''merge'') []]"
    by simp
  from n t sk none cmds three[THEN conjunct1] show ?thesis by (intro conjI)
qed

text \<open>
  Outside the type of the patch set: an entry that is not a dict makes \<^verbatim>\<open>patch.get\<close> raise
  before \<^verbatim>\<open>resource\<close> and \<^verbatim>\<open>name\<close> are assigned, and at the head of the list the handler
  then raises itself.
\<close>

lemma non_dict_first_entry_raises:
  "apply_kubectl_patches E (YSeq (YNull # rest)) s = (Inl UnboundLocalError, s)"
  by (simp add: apply_kubectl_patches_def patch_iteration_def)

lemma scale_patch_alone:
  "commands_run (patch_run quiet_env [scale_patch] fresh_manager)
     = [KubectlPatch (YStr ''deployment'') (YStr ''flagsmith-api'') (YStr ''flagsmith'') (YStr ''merge'') []]"
  using dict_patches_in_order[where E=quiet_env and ds="[scale_patch]" and s=fresh_manager]
  by (simp add: attempted_def skipped_def scale_patch_def dict_get_def kubectl_cmd_def
                quiet_env_def flagsmith_namespace_def)

text \<open>
  C8. A failure in one entry can end the loop of \<^verbatim>\<open>_apply_kubectl_patches\<close>. The scenario
  file says \<^verbatim>\<open>kubectl_patches: [null, {...}]\<close>, which discovery admits: it looks for the
  key only. In the first iteration \<^verbatim>\<open>patch.get\<close> raises \<^verbatim>\<open>AttributeError\<close> inside the
  \<^verbatim>\<open>try\<close>, before \<^verbatim>\<open>resource\<close> and \<^verbatim>\<open>name\<close> are assigned; the handler, which is there to log
  the failure and go on with the next entry, builds its message from these two names and
  raises \<^verbatim>\<open>UnboundLocalError\<close> itself. The method raises: no warning has been logged, no
  command has run, and the second entry, which on its own leads to one \<^verbatim>\<open>kubectl patch\<close>
  command, is never attempted.
\<close>

theorem non_dict_entry_ends_patch_loop:
  "apply_kubectl_patches quiet_env (YSeq [YNull, YMap scale_patch]) fresh_manager
     = (Inl UnboundLocalError, fresh_manager)
   \<and> events_of fresh_manager
        (snd (apply_kubectl_patches quiet_env (YSeq [YNull, YMap scale_patch]) fresh_manager)) = []
   \<and> commands_run (patch_run quiet_env [scale_patch] fresh_manager)
       = [KubectlPatch (YStr ''deployment'') (YStr ''flagsmith-api'') (YStr ''flagsmith'')
            (YStr ''merge'') []]"
  using non_dict_first_entry_raises[of quiet_env "[YMap scale_patch]" fresh_manager]
        scale_patch_alone
  by (simp add: events_of_def)

subsection \<open>The health probe\<close>

lemma force_kill_run:
  "force_kill E s = (Inr (), emit (Kill (proc_kill E (trace s))) s)"
  by (simp add: force_kill_def Let_def split: sum.splits)

lemma release_returns: "fst (release E s) = Inr ()"
  by (simp add: release_def force_kill_run Let_def split: sum.splits)

lemma release_returnsD: "release E s = (r, s') \<Longrightarrow> r = Inr ()"
  using release_returns[of E s] by simp

lemma release_events:
  "events_of s (snd (release E s)) =
     (case proc_terminate E (trace s) of
        Inl e \<Rightarrow> [Terminate (Inl e), Kill (proc_kill E (trace s @ [Terminate (Inl e)]))]
      | Inr u \<Rightarrow>
          (case proc_wait E (trace s @ [Terminate (Inr u)]) 5 of
             Inl e \<Rightarrow> [Terminate (Inr u), Wait 5 (Inl e),
                       Kill (proc_kill E (trace s @ [Terminate (Inr u), Wait 5 (Inl e)]))]
           | Inr rc \<Rightarrow> [Terminate (Inr u), Wait 5 (Inr rc)]))"
  by (simp add: release_def force_kill_run Let_def emit_def events_of_def split: sum.splits)

lemma release_extends: "extends s (snd (release E s))"
  by (auto simp: release_def force_kill_run Let_def split: sum.splits)

lemma probe_extends: "extends s (snd (probe E s))"
  by (auto simp: probe_def sleep_def Let_def split: sum.splits option.splits)

lemma probe_events:
  "events_of s (snd (probe E s)) =
     (case proc_poll E (trace s @ [Sleep 2]) of
        Inr None \<Rightarrow>
          [Sleep 2, Poll (Inr None),
           HttpGet health_url 5 (requests_get E (trace s @ [Sleep 2, Poll (Inr None)]) health_url 5)]
      | p \<Rightarrow> [Sleep 2, Poll p])"
  by (simp add: probe_def sleep_def Let_def emit_def events_of_def split: sum.splits option.splits)

lemma release_ends_tunnel:
  assumes "\<forall>tr. proc_kill E tr = Inr ()"
  shows "foldl tunnel_step b (events_of s (snd (release E s))) = False"
  using assms by (simp add: release_events split: sum.splits)

lemma release_last:
  "(\<exists>r. Terminate r \<in> set (events_of s (snd (release E s))))
   \<and> ((\<exists>rc. last (events_of s (snd (release E s))) = Wait 5 (Inr rc))
        \<or> (\<exists>r. last (events_of s (snd (release E s))) = Kill r))"
  by (simp add: release_events split: sum.splits)

text \<open>The three ways through the outer \<^verbatim>\<open>try\<close> block.\<close>

lemma check_health_state: "snd (check_health E s) = snd (check_health_body E s)"
  by (simp add: check_health_def split: prod.splits sum.splits)

lemma check_health_returns: "\<exists>h. fst (check_health E s) = Inr h"
  by (cases "check_health_body E s") (auto simp: check_health_def split: sum.splits)

lemma body_no_service:
  assumes "subprocess_run E (trace s) service_cmd = Inl e
           \<or> (\<exists>cp. subprocess_run E (trace s) service_cmd = Inr cp \<and> returncode cp \<noteq> 0)"
  shows "events_of s (snd (check_health_body E s))
           = [Ran service_cmd False False (subprocess_run E (trace s) service_cmd)]"
  using assms by (auto simp: check_health_body_def run_command_def Let_def)

lemma body_no_tunnel:
  assumes "subprocess_run E (trace s) service_cmd = Inr cp" "returncode cp = 0"
    and "popen E (trace s @ [Ran service_cmd False False (Inr cp)]) port_forward_cmd = Inl e"
  shows "events_of s (snd (check_health_body E s))
           = [Ran service_cmd False False (Inr cp), Popen port_forward_cmd (Inl e)]"
  using assms by (simp add: check_health_body_def run_command_def Let_def emit_def events_of_def)

lemma body_tunnel:
  assumes "subprocess_run E (trace s) service_cmd = Inr cp" "returncode cp = 0"
    and "popen E (trace s @ [Ran service_cmd False False (Inr cp)]) port_forward_cmd = Inr ()"
  defines "s2 \<equiv> s\<lparr>trace := trace s @ [Ran service_cmd False False (Inr cp),
                                        Popen port_forward_cmd (Inr ())]\<rparr>"
  shows "check_health_body E s = (fst (probe E s2), snd (release E (snd (probe E s2))))"
    and "events_of s (snd (check_health_body E s))
           = [Ran service_cmd False False (Inr cp), Popen port_forward_cmd (Inr ())]
             @ events_of s2 (snd (probe E s2))
             @ events_of (snd (probe E s2)) (snd (release E (snd (probe E s2))))"
proof -
  have st: "check_health_body E s = (fst (probe E s2), snd (release E (snd (probe E s2))))"
    using assms(1-3)
    by (auto simp: check_health_body_def run_command_def Let_def emit_def s2_def
             split: prod.splits sum.splits dest: release_returnsD)
  then show "check_health_body E s = (fst (probe E s2), snd (release E (snd (probe E s2))))" .
  have e0: "extends s s2" unfolding s2_def extends_def by blast
  have e1: "extends s2 (snd (probe E s2))" by (rule probe_extends)
  have e2: "extends (snd (probe E s2)) (snd (release E (snd (probe E s2))))" by (rule release_extends)
  have "events_of s (snd (release E (snd (probe E s2)))) =
      events_of s s2 @ events_of s2 (snd (probe E s2))
        @ events_of (snd (probe E s2)) (snd (release E (snd (probe E s2))))"
    using events_of_trans[OF e0 extends_trans[OF e1 e2]] events_of_trans[OF e1 e2] by simp
  then show "events_of s (snd (check_health_body E s))
           = [Ran service_cmd False False (Inr cp), Popen port_forward_cmd (Inr ())]
             @ events_of s2 (snd (probe E s2))
             @ events_of (snd (probe E s2)) (snd (release E (snd (probe E s2))))"
    by (simp add: st s2_def)
qed

lemma probe_http:
  assumes "HttpGet url t (Inr code) \<in> set (events_of s (snd (probe E s)))"
  shows "fst (probe E s) = Inr
          (if code = 200 then (True, ''Healthy'', Some 200)
           else if code = 404 then (False, ''Endpoint not found'', Some 404)
           else if code = 500 then (False, ''Server error'', Some 500)
           else if code = 503 then (False, ''Service unavailable'', Some 503)
           else (False, ''HTTP '' @ str_int code, Some code))"
  using assms
  by (auto simp: probe_def sleep_def Let_def emit_def events_of_def split: sum.splits option.splits)

lemma release_no_http: "HttpGet url t r \<notin> set (events_of s (snd (release E s)))"
  by (simp add: release_events split: sum.splits)

lemma check_health_result_of_body:
  "fst (check_health_body E s) = Inr h \<Longrightarrow> fst (check_health E s) = Inr h"
  by (cases "check_health_body E s") (simp add: check_health_def)

lemma body_events_cases:
  "(health_events E s = [Ran service_cmd False False (subprocess_run E (trace s) service_cmd)])
   \<or> (\<exists>cp e. health_events E s = [Ran service_cmd False False (Inr cp), Popen port_forward_cmd (Inl e)])
   \<or> (\<exists>cp s2. fst (check_health_body E s) = fst (probe E s2)
         \<and> health_events E s
             = [Ran service_cmd False False (Inr cp), Popen port_forward_cmd (Inr ())]
               @ events_of s2 (snd (probe E s2))
               @ events_of (snd (probe E s2)) (snd (release E (snd (probe E s2)))))"
proof (cases "subprocess_run E (trace s) service_cmd")
  case (Inl e)
  then show ?thesis by (simp add: health_events_def check_health_state body_no_service)
next
  case (Inr cp)
  show ?thesis
  proof (cases "returncode cp = 0")
    case False
    with Inr show ?thesis by (simp add: health_events_def check_health_state body_no_service)
  next
    case True
    show ?thesis
    proof (cases "popen E (trace s @ [Ran service_cmd False False (Inr cp)]) port_forward_cmd")
      case (Inl e)
      from body_no_tunnel[OF Inr True Inl] show ?thesis
        by (simp add: health_events_def check_health_state)
    next
      case (Inr u)
      then have p: "popen E (trace s @ [Ran service_cmd False False (Inr cp)]) port_forward_cmd = Inr ()"
        by simp
      from body_tunnel[OF \<open>subprocess_run E (trace s) service_cmd = Inr cp\<close> True p]
      show ?thesis
        by (simp add: health_events_def check_health_state) blast
    qed
  qed
qed

text \<open>
  C1. Every call of \<^verbatim>\<open>check_health\<close> returns a result. When the call has started the
  port-forward process, \<^verbatim>\<open>terminate()\<close> has been called on it, and the last thing the
  call did was \<^verbatim>\<open>wait(timeout=5)\<close> returning or \<^verbatim>\<open>kill()\<close>: on every path through the
  probe, whatever \<^verbatim>\<open>poll()\<close> and the HTTP request return or raise. The signal of \<^verbatim>\<open>kill()\<close>
  cannot be refused in a world where \<^verbatim>\<open>kill()\<close> does not raise, and there no tunnel is
  alive when the call returns.
\<close>

theorem check_health_releases_tunnel:
  "(\<exists>h. fst (check_health E s) = Inr h)
   \<and> (tunnel_started (health_events E s) \<longrightarrow>
        (\<exists>r. Terminate r \<in> set (health_events E s))
        \<and> ((\<exists>rc. last (health_events E s) = Wait 5 (Inr rc))
             \<or> (\<exists>r. last (health_events E s) = Kill r)))
   \<and> ((\<forall>tr. proc_kill E tr = Inr ()) \<longrightarrow> \<not> tunnel_alive (health_events E s))"
proof (intro conjI)
  show "\<exists>h. fst (check_health E s) = Inr h" by (rule check_health_returns)
  show "tunnel_started (health_events E s) \<longrightarrow>
        (\<exists>r. Terminate r \<in> set (health_events E s))
        \<and> ((\<exists>rc. last (health_events E s) = Wait 5 (Inr rc))
             \<or> (\<exists>r. last (health_events E s) = Kill r))"
  proof
    assume st: "tunnel_started (health_events E s)"
    from body_events_cases[of E s] st obtain cp s2 where
      ev: "health_events E s
             = [Ran service_cmd False False (Inr cp), Popen port_forward_cmd (Inr ())]
               @ events_of s2 (snd (probe E s2))
               @ events_of (snd (probe E s2)) (snd (release E (snd (probe E s2))))"
      by (auto simp: tunnel_started_def)
    let ?rel = "events_of (snd (probe E s2)) (snd (release E (snd (probe E s2))))"
    have ne: "?rel \<noteq> []" by (simp add: release_events split: sum.splits)
    from release_last[of "snd (probe E s2)" E] ne
    show "(\<exists>r. Terminate r \<in> set (health_events E s))
        \<and> ((\<exists>rc. last (health_events E s) = Wait 5 (Inr rc))
             \<or> (\<exists>r. last (health_events E s) = Kill r))"
      unfolding ev by auto
  qed
  show "(\<forall>tr. proc_kill E tr = Inr ()) \<longrightarrow> \<not> tunnel_alive (health_events E s)"
  proof
    assume k: "\<forall>tr. proc_kill E tr = Inr ()"
    from body_events_cases[of E s] show "\<not> tunnel_alive (health_events E s)"
    proof (elim disjE exE conjE)
      assume "health_events E s = [Ran service_cmd False False (subprocess_run E (trace s) service_cmd)]"
      then show ?thesis by (simp add: tunnel_alive_def)
    next
      fix cp e
      assume "health_events E s = [Ran service_cmd False False (Inr cp), Popen port_forward_cmd (Inl e)]"
      then show ?thesis by (simp add: tunnel_alive_def)
    next
      fix cp s2
      assume "health_events E s
             = [Ran service_cmd False False (Inr cp), Popen port_forward_cmd (Inr ())]
               @ events_of s2 (snd (probe E s2))
               @ events_of (snd (probe E s2)) (snd (release E (snd (probe E s2))))"
      then show ?thesis
        using release_ends_tunnel[OF k] by (simp add: tunnel_alive_def)
    qed
  qed
qed

lemma stubborn_health_events:
  "health_events stubborn_env fresh_manager =
     [Ran service_cmd False False (Inr (Completed 0 [])), Popen port_forward_cmd (Inr ()),
      Sleep 2, Poll (Inr None), HttpGet health_url 5 (Inr 418),
      Terminate (Inr ()), Wait 5 (Inl TimeoutExpired), Kill (Inr ())]"
  by (simp add: health_events_def check_health_state check_health_body_def probe_def release_def
                force_kill_def run_command_def sleep_def emit_def events_of_def Let_def
                stubborn_env_def quiet_env_def fresh_manager_def)

theorem check_health_releases_tunnel_witness:
  "(\<forall>tr. proc_kill stubborn_env tr = Inr ())
   \<and> tunnel_started (health_events stubborn_env fresh_manager)
   \<and> Terminate (Inr ()) \<in> set (health_events stubborn_env fresh_manager)
   \<and> last (health_events stubborn_env fresh_manager) = Kill (Inr ())
   \<and> \<not> tunnel_alive (health_events stubborn_env fresh_manager)"
proof -
  note run = check_health_releases_tunnel[where E=stubborn_env and s=fresh_manager]
  have k: "\<forall>tr. proc_kill stubborn_env tr = Inr ()"
    by (simp add: stubborn_env_def quiet_env_def)
  have st: "tunnel_started (health_events stubborn_env fresh_manager)"
    unfolding tunnel_started_def stubborn_health_events by (rule exI[of _ port_forward_cmd]) simp
  from run[THEN conjunct2, THEN conjunct2, THEN mp, OF k]
  have dead: "\<not> tunnel_alive (health_events stubborn_env fresh_manager)" .
  from run[THEN conjunct2, THEN conjunct1, THEN mp, OF st]
  have "\<exists>r. Terminate r \<in> set (health_events stubborn_env fresh_manager)" by (rule conjunct1)
  then have t: "Terminate (Inr ()) \<in> set (health_events stubborn_env fresh_manager)"
    by (simp add: stubborn_health_events)
  have l: "last (health_events stubborn_env fresh_manager) = Kill (Inr ())"
    by (simp add: stubborn_health_events)
  from k st t l dead show ?thesis by (intro conjI)
qed

text \<open>
  C2. \<^verbatim>\<open>check_health\<close> always returns a triple. When the service lookup exits with a
  non-zero status the triple is \<^verbatim>\<open>(False, "Service not deployed", None)\<close> and the lookup
  is all the call has done: no tunnel, no request. When the request has returned a
  response, the triple is fixed by the status code alone: 200 is healthy, 404, 500 and
  503 have their messages, any other code gives \<^verbatim>\<open>"HTTP "\<close> followed by the code in
  decimal, and the code itself is the third component.
\<close>

theorem check_health_classification:
  "(\<exists>h. fst (check_health E s) = Inr h)
   \<and> (\<forall>cp. subprocess_run E (trace s) service_cmd = Inr cp \<and> returncode cp \<noteq> 0 \<longrightarrow>
          fst (check_health E s) = Inr (False, ''Service not deployed'', None)
          \<and> health_events E s = [Ran service_cmd False False (Inr cp)])
   \<and> (\<forall>url t code. HttpGet url t (Inr code) \<in> set (health_events E s) \<longrightarrow>
          fst (check_health E s) = Inr
            (if code = 200 then (True, ''Healthy'', Some 200)
             else if code = 404 then (False, ''Endpoint not found'', Some 404)
             else if code = 500 then (False, ''Server error'', Some 500)
             else if code = 503 then (False, ''Service unavailable'', Some 503)
             else (False, ''HTTP '' @ str_int code, Some code)))"
proof (intro conjI allI impI)
  show "\<exists>h. fst (check_health E s) = Inr h" by (rule check_health_returns)
next
  fix cp
  assume a: "subprocess_run E (trace s) service_cmd = Inr cp \<and> returncode cp \<noteq> 0"
  then show "fst (check_health E s) = Inr (False, ''Service not deployed'', None)"
    by (simp add: check_health_def check_health_body_def run_command_def Let_def)
  from a body_no_service[of E s] show "health_events E s = [Ran service_cmd False False (Inr cp)]"
    by (simp add: health_events_def check_health_state)
next
  fix url t code
  assume h: "HttpGet url t (Inr code) \<in> set (health_events E s)"
  from body_events_cases[of E s] h obtain cp s2 where
    res: "fst (check_health_body E s) = fst (probe E s2)" and
    ev: "health_events E s
             = [Ran service_cmd False False (Inr cp), Popen port_forward_cmd (Inr ())]
               @ events_of s2 (snd (probe E s2))
               @ events_of (snd (probe E s2)) (snd (release E (snd (probe E s2))))"
    by auto
  from h ev release_no_http have "HttpGet url t (Inr code) \<in> set (events_of s2 (snd (probe E s2)))"
    by auto
  from probe_http[OF this] res
  show "fst (check_health E s) = Inr
            (if code = 200 then (True, ''Healthy'', Some 200)
             else if code = 404 then (False, ''Endpoint not found'', Some 404)
             else if code = 500 then (False, ''Server error'', Some 500)
             else if code = 503 then (False, ''Service unavailable'', Some 503)
             else (False, ''HTTP '' @ str_int code, Some code))"
    by (intro check_health_result_of_body) simp
qed

lemma str_int_418: "str_int 418 = ''418''"
  by (simp add: str_int_def str_nat.simps)

theorem check_health_classification_witness:
  "subprocess_run no_service_env (trace fresh_manager) service_cmd = Inr (Completed 1 [])
   \<and> fst (check_health no_service_env fresh_manager) = Inr (False, ''Service not deployed'', None)
   \<and> health_events no_service_env fresh_manager = [Ran service_cmd False False (Inr (Completed 1 []))]
   \<and> HttpGet health_url 5 (Inr 418) \<in> set (health_events stubborn_env fresh_manager)
   \<and> fst (check_health stubborn_env fresh_manager) = Inr (False, ''HTTP 418'', Some 418)"
proof -
  note gone = check_health_classification[where E=no_service_env and s=fresh_manager]
  note teapot = check_health_classification[where E=stubborn_env and s=fresh_manager]
  have a: "subprocess_run no_service_env (trace fresh_manager) service_cmd = Inr (Completed 1 [])"
    by (simp add: no_service_env_def quiet_env_def)
  then have "subprocess_run no_service_env (trace fresh_manager) service_cmd = Inr (Completed 1 [])
      \<and> returncode (Completed 1 []) \<noteq> 0"
    by simp
  from gone[THEN conjunct2, THEN conjunct1, THEN spec, THEN mp, OF this]
  have b: "fst (check_health no_service_env fresh_manager) = Inr (False, ''Service not deployed'', None)
      \<and> health_events no_service_env fresh_manager = [Ran service_cmd False False (Inr (Completed 1 []))]" .
  have c: "HttpGet health_url 5 (Inr 418) \<in> set (health_events stubborn_env fresh_manager)"
    by (simp add: stubborn_health_events)
  from teapot[THEN conjunct2, THEN conjunct2, THEN spec, THEN spec, THEN spec, THEN mp, OF c]
  have d: "fst (check_health stubborn_env fresh_manager) = Inr (False, ''HTTP 418'', Some 418)"
    by (simp add: str_int_418)
  from a b c d show ?thesis by simp
qed

subsection \<open>Discovery\<close>

lemma parse_challenge_file_static:
  assumes "read_text E (trace s) (join_path dir f) = files f"
  shows "(complete E files f \<longrightarrow>
            (\<exists>c. fst (parse_challenge_file E dir f s) = Inr (Some c) \<and> filename c = f
                  \<and> challenge_dir c = dir))
       \<and> (\<not> complete E files f \<longrightarrow>
            fst (parse_challenge_file E dir f s) = Inr None
            \<or> (\<exists>e. fst (parse_challenge_file E dir f s) = Inl e))"
proof (cases "case files f of Inl e \<Rightarrow> Inl e | Inr txt \<Rightarrow> yaml_safe_load E txt")
  case (Inl e)
  with assms show ?thesis
    by (auto simp: parse_challenge_file_def complete_def Let_def split: sum.splits)
next
  case (Inr data)
  show ?thesis
  proof (cases data)
    case (YMap d)
    show ?thesis
    proof (cases "\<forall>field \<in> set required_fields. has_key d field")
      case True
      then obtain n de hv kp es where
        "map_of d (YStr ''name'') = Some n" "map_of d (YStr ''description'') = Some de"
        "map_of d (YStr ''helm_values'') = Some hv" "map_of d (YStr ''kubectl_patches'') = Some kp"
        "map_of d (YStr ''estimates'') = Some es"
        by (auto simp: required_fields_def has_key_def)
      with assms Inr YMap True show ?thesis
        by (simp add: parse_challenge_file_def complete_def Let_def)
    next
      case False
      with assms Inr YMap show ?thesis
        by (auto simp: parse_challenge_file_def complete_def Let_def)
    qed
  qed (use assms Inr in \<open>simp_all add: parse_challenge_file_def complete_def Let_def\<close>)
qed

lemma parse_challenge_file_frame:
  "challenges (snd (parse_challenge_file E dir f s)) = challenges s"
  by (simp add: parse_challenge_file_def Let_def emit_def
           split: sum.splits yaml.splits option.splits prod.splits)

lemma discover_loop_returns: "fst (discover_loop E dir fs s) = Inr ()"
proof (induction fs arbitrary: s)
  case Nil
  then show ?case by simp
next
  case (Cons f fs)
  then show ?case
    by (cases "parse_challenge_file E dir f s")
       (auto split: sum.splits option.splits)
qed

lemma discover_loop_static:
  assumes "\<forall>tr f. read_text E tr (join_path dir f) = files f"
  shows "map filename (challenges (snd (discover_loop E dir fs s)))
           = map filename (challenges s) @ filter (complete E files) fs"
proof (induction fs arbitrary: s)
  case Nil
  then show ?case by simp
next
  case (Cons f fs)
  obtain r s' where rs: "parse_challenge_file E dir f s = (r, s')"
    by (cases "parse_challenge_file E dir f s")
  have fr: "challenges s' = challenges s"
    using parse_challenge_file_frame[of E dir f s] rs by simp
  from assms have rd: "read_text E (trace s) (join_path dir f) = files f" by simp
  note p = parse_challenge_file_static[where files=files and f=f and s=s and E=E and dir=dir, OF rd]
  show ?case
  proof (cases "complete E files f")
    case True
    with p rs obtain c where c: "r = Inr (Some c)" "filename c = f" by auto
    from Cons.IH[of "s'\<lparr>challenges := challenges s' @ [c]\<rparr>"] c rs fr True
    show ?thesis by simp
  next
    case False
    with p rs have "r = Inr None \<or> (\<exists>e. r = Inl e)" by auto
    with Cons.IH[of s'] rs fr False show ?thesis by auto
  qed
qed

lemma discover_challenges_run:
  "discover_challenges E s =
     (case dir_exists E (trace s) (challenges_dir s) of
        Inl e \<Rightarrow>
          (Inl e, s\<lparr>challenges := [],
                     trace := trace s @ [DirExists (challenges_dir s) (Inl e)]\<rparr>)
      | Inr ex \<Rightarrow>
          if \<not> ex then
            (Inr (), s\<lparr>challenges := [],
                        trace := trace s @ [DirExists (challenges_dir s) (Inr False)]\<rparr>)
          else
            (case list_dir E (trace s @ [DirExists (challenges_dir s) (Inr True)])
                    (challenges_dir s) of
               Inl e \<Rightarrow>
                 (Inl e, s\<lparr>challenges := [],
                            trace := trace s @ [DirExists (challenges_dir s) (Inr True),
                                                ListDir (challenges_dir s) (Inl e)]\<rparr>)
             | Inr names \<Rightarrow>
                 discover_loop E (challenges_dir s) (sort (filter (ends_with ''.yaml'') names))
                   (s\<lparr>challenges := [],
                      trace := trace s @ [DirExists (challenges_dir s) (Inr True),
                                          ListDir (challenges_dir s) (Inr names)]\<rparr>)))"
  by (simp add: discover_challenges_def Let_def emit_def split: sum.splits)

text \<open>
  C3. No file makes \<^verbatim>\<open>discover_challenges\<close> raise. Whatever the files of the scenario
  directory hold, and whether or not they can be read or parsed, the method returns
  normally when the two probes of the directory itself, \<^verbatim>\<open>exists()\<close> and \<^verbatim>\<open>glob()\<close>, answer;
  an exception that leaves it is the one a probe raised, and the catalog is then empty.
  Over a directory that does not change during the call, the catalog holds, in the order
  of their names, exactly the \<^verbatim>\<open>*.yaml\<close> files that can be read and parsed and whose
  content is a dict with all five required fields: a file that cannot be read, fails to
  parse, is not a dict or lacks a field is left out, and every complete file is in.
  Without the directory the catalog is empty.
\<close>

theorem discovery_excludes_incomplete_files:
  "(probes_answer E (challenges_dir s) \<longrightarrow> fst (discover_challenges E s) = Inr ())
   \<and> (\<forall>e. fst (discover_challenges E s) = Inl e \<longrightarrow>
          (dir_exists E (trace s) (challenges_dir s) = Inl e
           \<or> list_dir E (trace s @ [DirExists (challenges_dir s) (Inr True)]) (challenges_dir s)
               = Inl e)
          \<and> challenges (snd (discover_challenges E s)) = [])
   \<and> (static_dir E (challenges_dir s) names files \<longrightarrow>
        fst (discover_challenges E s) = Inr ()
        \<and> map filename (challenges (snd (discover_challenges E s)))
            = filter (complete E files) (sort (filter (ends_with ''.yaml'') names)))
   \<and> ((\<forall>tr. dir_exists E tr (challenges_dir s) = Inr False) \<longrightarrow>
        fst (discover_challenges E s) = Inr ()
        \<and> challenges (snd (discover_challenges E s)) = [])"
proof (intro conjI impI allI)
  assume "probes_answer E (challenges_dir s)"
  then have "\<exists>ex. dir_exists E (trace s) (challenges_dir s) = Inr ex"
    and "\<exists>names. list_dir E (trace s @ [DirExists (challenges_dir s) (Inr True)]) (challenges_dir s)
           = Inr names"
    by (simp_all add: probes_answer_def)
  then show "fst (discover_challenges E s) = Inr ()"
    by (auto simp: discover_challenges_run discover_loop_returns)
next
  fix e
  assume r: "fst (discover_challenges E s) = Inl e"
  then show "dir_exists E (trace s) (challenges_dir s) = Inl e
           \<or> list_dir E (trace s @ [DirExists (challenges_dir s) (Inr True)]) (challenges_dir s)
               = Inl e"
    by (auto simp: discover_challenges_run discover_loop_returns split: sum.splits if_splits)
  from r show "challenges (snd (discover_challenges E s)) = []"
    by (auto simp: discover_challenges_run discover_loop_returns split: sum.splits if_splits)
next
  assume st: "static_dir E (challenges_dir s) names files"
  then have rd: "\<forall>tr f. read_text E tr (join_path (challenges_dir s) f) = files f"
    by (simp add: static_dir_def)
  from st have ex: "\<And>tr. dir_exists E tr (challenges_dir s) = Inr True"
    and ls: "\<And>tr. list_dir E tr (challenges_dir s) = Inr names"
    by (simp_all add: static_dir_def)
  show "fst (discover_challenges E s) = Inr ()"
    by (simp add: discover_challenges_run ex ls discover_loop_returns)
  show "map filename (challenges (snd (discover_challenges E s)))
          = filter (complete E files) (sort (filter (ends_with ''.yaml'') names))"
    using discover_loop_static[OF rd]
    by (simp add: discover_challenges_run ex ls)
next
  assume no: "\<forall>tr. dir_exists E tr (challenges_dir s) = Inr False"
  then show "fst (discover_challenges E s) = Inr ()"
    by (simp add: discover_challenges_run)
  from no show "challenges (snd (discover_challenges E s)) = []"
    by (simp add: discover_challenges_run)
qed

lemma catalog_sorted:
  "sort (filter (ends_with ''.yaml'') catalog_names)
     = [''broken.yaml'', ''good.yaml'', ''locked.yaml'', ''partial.yaml'']"
  by code_simp

lemma catalog_complete:
  "filter (complete catalog_env catalog_files)
      [''broken.yaml'', ''good.yaml'', ''locked.yaml'', ''partial.yaml''] = [''good.yaml'']"
  by (simp add: complete_def catalog_files_def catalog_env_def quiet_env_def good_scenario_def
                partial_scenario_def required_fields_def has_key_def)

theorem discovery_excludes_incomplete_files_witness:
  "probes_answer catalog_env (challenges_dir fresh_manager)
   \<and> static_dir catalog_env (challenges_dir fresh_manager) catalog_names catalog_files
   \<and> fst (discover_challenges catalog_env fresh_manager) = Inr ()
   \<and> map filename (challenges (snd (discover_challenges catalog_env fresh_manager))) = [''good.yaml'']
   \<and> (\<forall>tr. dir_exists quiet_env tr (challenges_dir fresh_manager) = Inr False)
   \<and> challenges (snd (discover_challenges quiet_env fresh_manager)) = []
   \<and> fst (discover_challenges unsearchable_env fresh_manager) = Inl OSError
   \<and> dir_exists unsearchable_env (trace fresh_manager) (challenges_dir fresh_manager) = Inl OSError
   \<and> challenges (snd (discover_challenges unsearchable_env fresh_manager)) = []
   \<and> fst (discover_challenges unlistable_env fresh_manager) = Inl OSError
   \<and> challenges (snd (discover_challenges unlistable_env fresh_manager)) = []"
proof -
  note there = discovery_excludes_incomplete_files[where E=catalog_env and s=fresh_manager
      and names=catalog_names and files=catalog_files]
  note absent = discovery_excludes_incomplete_files[where E=quiet_env and s=fresh_manager]
  note hidden = discovery_excludes_incomplete_files[where E=unsearchable_env and s=fresh_manager]
  note closed = discovery_excludes_incomplete_files[where E=unlistable_env and s=fresh_manager]
  have pa: "probes_answer catalog_env (challenges_dir fresh_manager)"
    by (auto simp: probes_answer_def catalog_env_def quiet_env_def)
  have st: "static_dir catalog_env (challenges_dir fresh_manager) catalog_names catalog_files"
    by (simp add: static_dir_def catalog_env_def quiet_env_def fresh_manager_def join_path_def)
  from there[THEN conjunct1, THEN mp, OF pa]
  have ret: "fst (discover_challenges catalog_env fresh_manager) = Inr ()" .
  from there[THEN conjunct2, THEN conjunct2, THEN conjunct1, THEN mp, OF st, THEN conjunct2]
  have cat: "map filename (challenges (snd (discover_challenges catalog_env fresh_manager))) = [''good.yaml'']"
    by (simp only: catalog_sorted catalog_complete)
  have no: "\<forall>tr. dir_exists quiet_env tr (challenges_dir fresh_manager) = Inr False"
    by (simp add: quiet_env_def)
  from absent[THEN conjunct2, THEN conjunct2, THEN conjunct2, THEN mp, OF no, THEN conjunct2]
  have empty: "challenges (snd (discover_challenges quiet_env fresh_manager)) = []" .
  have h1: "fst (discover_challenges unsearchable_env fresh_manager) = Inl OSError"
    by (simp add: discover_challenges_run unsearchable_env_def catalog_env_def quiet_env_def)
  have h2: "dir_exists unsearchable_env (trace fresh_manager) (challenges_dir fresh_manager) = Inl OSError"
    by (simp add: unsearchable_env_def)
  from hidden[THEN conjunct2, THEN conjunct1, THEN spec, THEN mp, OF h1, THEN conjunct2]
  have h3: "challenges (snd (discover_challenges unsearchable_env fresh_manager)) = []" .
  have c1: "fst (discover_challenges unlistable_env fresh_manager) = Inl OSError"
    by (simp add: discover_challenges_run unlistable_env_def catalog_env_def quiet_env_def)
  from closed[THEN conjunct2, THEN conjunct1, THEN spec, THEN mp, OF c1, THEN conjunct2]
  have c2: "challenges (snd (discover_challenges unlistable_env fresh_manager)) = []" .
  from pa st ret cat no empty h1 h2 h3 c1 c2 show ?thesis by (intro conjI)
qed

subsection \<open>Establishing the session\<close>

lemma emits_file_exists: "emits is_file_event (\<lambda>s. (Inr (fst (file_exists E p s)), snd (file_exists E p s)))"
  by (rule emitsI) (simp_all add: file_exists_def Let_def)

lemma file_exists_events:
  "extends s (snd (file_exists E p s))"
  "\<forall>ev \<in> set (events_of s (snd (file_exists E p s))). is_file_event ev"
  by (simp_all add: file_exists_def Let_def)

lemma read_stripped_events:
  "extends s (snd (read_stripped E p s))"
  "\<forall>ev \<in> set (events_of s (snd (read_stripped E p s))). is_file_event ev"
  by (simp_all add: read_stripped_def Let_def split: sum.splits)

lemma emits_read_stripped: "emits is_file_event (read_stripped E p)"
  by (rule emitsI) (use read_stripped_events in auto)

lemma read_if_exists_state:
  "snd (read_if_exists E p s) =
     (if fst (file_exists E p s) then snd (read_stripped E p (snd (file_exists E p s)))
      else snd (file_exists E p s))"
  by (simp add: read_if_exists_def split: prod.splits sum.splits bool.splits)

lemma check_session_failure_state:
  "snd (check_session_failure E s) =
     (if fst (file_exists E status_file s)
      then snd (read_stripped E status_file (snd (file_exists E status_file s)))
      else snd (file_exists E status_file s))"
  by (simp add: check_session_failure_def split: prod.splits sum.splits bool.splits)

lemma emits_read_if_exists: "emits is_file_event (read_if_exists E p)"
proof (rule emitsI)
  fix s
  obtain b s1 where f: "file_exists E p s = (b, s1)" by (cases "file_exists E p s")
  from file_exists_events[of s E p] f
  have e1: "extends s s1" "\<forall>ev \<in> set (events_of s s1). is_file_event ev" by simp_all
  have e2: "extends s1 (snd (read_stripped E p s1))"
    "\<forall>ev \<in> set (events_of s1 (snd (read_stripped E p s1))). is_file_event ev"
    by (rule read_stripped_events)+
  have "extends s (snd (read_if_exists E p s)) \<and>
        (\<forall>ev \<in> set (events_of s (snd (read_if_exists E p s))). is_file_event ev)"
  proof (cases b)
    case True
    from emits_seq[OF e1 e2] f True show ?thesis
      by (simp add: read_if_exists_state)
  next
    case False
    with e1 f show ?thesis by (simp add: read_if_exists_state)
  qed
  then show "extends s (snd (read_if_exists E p s))"
    and "\<And>ev. ev \<in> set (events_of s (snd (read_if_exists E p s))) \<Longrightarrow> is_file_event ev"
    by auto
qed

lemma check_session_failure_events:
  "extends s (snd (check_session_failure E s))
   \<and> (\<forall>ev \<in> set (events_of s (snd (check_session_failure E s))). is_file_event ev)"
proof -
  obtain b s1 where f: "file_exists E status_file s = (b, s1)"
    by (cases "file_exists E status_file s")
  from file_exists_events[of s E status_file] f
  have e1: "extends s s1" "\<forall>ev \<in> set (events_of s s1). is_file_event ev" by simp_all
  have e2: "extends s1 (snd (read_stripped E status_file s1))"
    "\<forall>ev \<in> set (events_of s1 (snd (read_stripped E status_file s1))). is_file_event ev"
    by (rule read_stripped_events)+
  show ?thesis
  proof (cases b)
    case True
    from emits_seq[OF e1 e2] f True show ?thesis
      by (simp add: check_session_failure_state)
  next
    case False
    with e1 f show ?thesis by (simp add: check_session_failure_state)
  qed
qed

lemma get_tmate_info_body_events:
  "extends s (snd (get_tmate_info_body E s))
   \<and> (\<forall>ev \<in> set (events_of s (snd (get_tmate_info_body E s))). is_file_event ev)"
proof -
  obtain b s1 where f: "file_exists E status_file s = (b, s1)"
    by (cases "file_exists E status_file s")
  from file_exists_events[of s E status_file] f
  have e1: "extends s s1" "\<forall>ev \<in> set (events_of s s1). is_file_event ev" by simp_all
  obtain r s2 where rd: "read_stripped E status_file s1 = (r, s2)"
    by (cases "read_stripped E status_file s1")
  from read_stripped_events[of s1 E status_file] rd
  have e2: "extends s1 s2" "\<forall>ev \<in> set (events_of s1 s2). is_file_event ev" by simp_all
  note e12 = emits_seq[OF e1 e2]
  obtain r3 s3 where r3: "read_if_exists E ssh_file s2 = (r3, s3)"
    by (cases "read_if_exists E ssh_file s2")
  from emits_extends[OF emits_read_if_exists, of s2 E ssh_file]
       emits_event[OF emits_read_if_exists, of _ s2 E ssh_file] r3
  have e3: "extends s2 s3" "\<forall>ev \<in> set (events_of s2 s3). is_file_event ev" by auto
  note e123 = emits_seq[OF e12[THEN conjunct1] e12[THEN conjunct2] e3]
  obtain r4 s4 where r4: "read_if_exists E web_file s3 = (r4, s4)"
    by (cases "read_if_exists E web_file s3")
  from emits_extends[OF emits_read_if_exists, of s3 E web_file]
       emits_event[OF emits_read_if_exists, of _ s3 E web_file] r4
  have e4: "extends s3 s4" "\<forall>ev \<in> set (events_of s3 s4). is_file_event ev" by auto
  note e1234 = emits_seq[OF e123[THEN conjunct1] e123[THEN conjunct2] e4]
  show ?thesis
    using f rd r3 r4 e1 e12 e123 e1234
    by (cases b; cases r; cases r3; cases r4)
       (simp_all add: get_tmate_info_body_def)
qed

lemma get_tmate_info_returns: "\<exists>info. fst (get_tmate_info E s) = Inr info"
  by (cases "get_tmate_info_body E (emit TmateInfo s)") (auto simp: get_tmate_info_def split: sum.splits)

lemma get_tmate_info_events:
  "extends s (snd (get_tmate_info E s))
   \<and> (\<exists>fs. events_of s (snd (get_tmate_info E s)) = TmateInfo # fs
            \<and> (\<forall>ev \<in> set fs. is_file_event ev))"
proof -
  let ?s0 = "emit TmateInfo s"
  have st: "snd (get_tmate_info E s) = snd (get_tmate_info_body E ?s0)"
    by (simp add: get_tmate_info_def split: prod.splits sum.splits)
  from get_tmate_info_body_events[of ?s0 E]
  have b: "extends ?s0 (snd (get_tmate_info_body E ?s0))"
    "\<forall>ev \<in> set (events_of ?s0 (snd (get_tmate_info_body E ?s0))). is_file_event ev"
    by simp_all
  have "events_of s (snd (get_tmate_info E s))
      = TmateInfo # events_of ?s0 (snd (get_tmate_info_body E ?s0))"
    using events_of_trans[OF extends_emit b(1)] by (simp add: st)
  moreover have "extends s (snd (get_tmate_info E s))"
    using extends_trans[OF extends_emit b(1)] by (simp add: st)
  ultimately show ?thesis using b(2) by blast
qed

lemma file_events_count:
  "\<forall>ev \<in> set fs. is_file_event ev \<Longrightarrow>
     polls fs = 0 \<and> pauses fs = 0 \<and> relaunches fs = 0"
  by (induction fs) (auto simp: polls_def pauses_def relaunches_def elim: is_file_event.elims)

lemma counts_append [simp]:
  "polls (xs @ ys) = polls xs + polls ys"
  "pauses (xs @ ys) = pauses xs + pauses ys"
  "relaunches (xs @ ys) = relaunches xs + relaunches ys"
  by (simp_all add: polls_def pauses_def relaunches_def)

lemma counts_Cons [simp]:
  "polls (TmateInfo # xs) = Suc (polls xs)"
  "pauses (TmateInfo # xs) = pauses xs"
  "relaunches (TmateInfo # xs) = relaunches xs"
  "polls [Sleep n] = 0" "pauses [Sleep 1] = 1" "pauses [Sleep (Suc 0)] = 1" "relaunches [Sleep n] = 0"
  "polls (Sleep n # xs) = polls xs" "pauses (Sleep (Suc 0) # xs) = Suc (pauses xs)"
  "relaunches (Sleep n # xs) = relaunches xs"
  "polls [] = 0" "pauses [] = 0" "relaunches [] = 0"
  by (simp_all add: polls_def pauses_def relaunches_def)

text \<open>One attempt: at most one poll per index, a one-second pause between two polls.\<close>

lemma poll_loop_events:
  "extends s (snd (poll_loop E attempts s))
   \<and> polls (events_of s (snd (poll_loop E attempts s))) \<le> length attempts
   \<and> polls (events_of s (snd (poll_loop E attempts s)))
       \<le> Suc (pauses (events_of s (snd (poll_loop E attempts s))))
   \<and> relaunches (events_of s (snd (poll_loop E attempts s))) = 0
   \<and> (\<forall>ev \<in> set (events_of s (snd (poll_loop E attempts s))).
         is_poll ev \<or> is_file_event ev \<or> ev = Sleep 1)"
proof (induction attempts arbitrary: s)
  case Nil
  then show ?case by simp
next
  case (Cons a attempts)
  obtain info s1 where g: "get_tmate_info E s = (Inr info, s1)"
    using get_tmate_info_returns[of E s] by (cases "get_tmate_info E s") auto
  from get_tmate_info_events[of s E] g obtain fs where
    e1: "extends s s1" and ev1: "events_of s s1 = TmateInfo # fs"
    and fs: "\<forall>ev \<in> set fs. is_file_event ev"
    by auto
  note c1 = file_events_count[OF fs]
  obtain is_ready ssh_url web_url where info: "info = (is_ready, ssh_url, web_url)"
    by (cases info)
  show ?case
  proof (cases "is_ready \<and> ssh_url \<noteq> None \<and> ssh_url \<noteq> Some []")
    case True
    with g info e1 ev1 c1 fs show ?thesis by auto
  next
    case False
    obtain r s2 where c: "check_session_failure E s1 = (r, s2)"
      by (cases "check_session_failure E s1")
    from check_session_failure_events[of s1 E] c
    have e2: "extends s1 s2" and fs2: "\<forall>ev \<in> set (events_of s1 s2). is_file_event ev" by simp_all
    note c2 = file_events_count[OF fs2]
    have e12: "extends s s2" using e1 e2 by (rule extends_trans)
    have ev12: "events_of s s2 = TmateInfo # fs @ events_of s1 s2"
      using events_of_trans[OF e1 e2] ev1 by simp
    show ?thesis
    proof (cases r)
      case (Inl e)
      with g info False c e12 ev12 c1 c2 fs fs2 show ?thesis by auto
    next
      case (Inr failed)
      show ?thesis
      proof (cases failed)
        case True
        with g info False c Inr e12 ev12 c1 c2 fs fs2 show ?thesis by auto
      next
        case f: False
        define s3 where "s3 = sleep 1 s2"
        define rest where "rest = events_of s3 (snd (poll_loop E attempts s3))"
        have e3: "extends s s3" using e12 by (simp add: s3_def sleep_def)
        have ev3: "events_of s s3 = TmateInfo # fs @ events_of s1 s2 @ [Sleep 1]"
          using e12 ev12 by (simp add: s3_def sleep_def)
        from Cons.IH[of s3]
        have IH: "extends s3 (snd (poll_loop E attempts s3))"
          "polls rest \<le> length attempts" "polls rest \<le> Suc (pauses rest)"
          "relaunches rest = 0"
          "\<forall>ev \<in> set rest. is_poll ev \<or> is_file_event ev \<or> ev = Sleep 1"
          by (simp_all add: rest_def)
        have e4: "extends s (snd (poll_loop E attempts s3))"
          using e3 IH(1) by (rule extends_trans)
        have ev4: "events_of s (snd (poll_loop E attempts s3))
            = (TmateInfo # fs @ events_of s1 s2 @ [Sleep 1]) @ rest"
          using events_of_trans[OF e3 IH(1)] ev3 by (simp add: rest_def)
        have whole: "poll_loop E (a # attempts) s = poll_loop E attempts s3"
          using g info False c Inr f by (auto simp: s3_def)
        have p: "polls (events_of s (snd (poll_loop E attempts s3))) = Suc (polls rest)"
          and q: "pauses (events_of s (snd (poll_loop E attempts s3))) = Suc (pauses rest)"
          and r: "relaunches (events_of s (snd (poll_loop E attempts s3))) = 0"
          unfolding ev4 using c1 c2 IH(4) by (simp_all add: pauses_def)
        have all: "\<forall>ev \<in> set (events_of s (snd (poll_loop E attempts s3))).
            is_poll ev \<or> is_file_event ev \<or> ev = Sleep 1"
          unfolding ev4 using fs fs2 IH(5) by auto
        show ?thesis
          unfolding whole using e4 p q r all IH(2,3) by simp
      qed
    qed
  qed
qed

text \<open>Counting through a block of statements.\<close>

lemma run_all_count:
  assumes "list_all2 (\<lambda>f k. \<forall>s. extends s (snd (f s))
                        \<and> length (filter Q (events_of s (snd (f s)))) \<le> k) fs ks"
  shows "extends s (snd (run_all fs s))
       \<and> length (filter Q (events_of s (snd (run_all fs s)))) \<le> sum_list ks"
  using assms
proof (induction fs ks arbitrary: s rule: list_all2_induct)
  case Nil
  then show ?case by simp
next
  case (Cons f fs k ks)
  obtain r s' where fs: "f s = (r, s')" by (cases "f s")
  from Cons.hyps(1) fs have e1: "extends s s'"
    and c1: "length (filter Q (events_of s s')) \<le> k"
    by (auto dest: spec[of _ s])
  show ?case
  proof (cases r)
    case (Inl e)
    with fs e1 c1 show ?thesis by simp
  next
    case (Inr u)
    from Cons.IH[of s']
    have e2: "extends s' (snd (run_all fs s'))"
      and c2: "length (filter Q (events_of s' (snd (run_all fs s')))) \<le> sum_list ks"
      by simp_all
    have "events_of s (snd (run_all fs s')) = events_of s s' @ events_of s' (snd (run_all fs s'))"
      using e1 e2 by (rule events_of_trans)
    with c1 c2 extends_trans[OF e1 e2] fs Inr show ?thesis by simp
  qed
qed

lemma sweep_event_quiet:
  "emits (\<lambda>ev. \<not> is_teardown ev \<and> \<not> is_poll ev) (force_cleanup_containers E)"
  by (rule emits_force_cleanup_general) (simp_all add: compose_down_cmd_def docker_ps_cmd_def)

lemma filter_none: "\<forall>ev \<in> set evs. \<not> Q ev \<Longrightarrow> length (filter Q evs) = 0"
  by (induction evs) auto

lemma cleanup_counts:
  "extends s (snd (cleanup E s))
   \<and> length (filter is_teardown (events_of s (snd (cleanup E s)))) \<le> 1
   \<and> length (filter is_poll (events_of s (snd (cleanup E s)))) \<le> 0"
proof -
  let ?p = "run_command E compose_down_cmd False False"
  obtain r s' where rs: "?p s = (r, s')" by (cases "?p s")
  then have s': "s' = emit (Ran compose_down_cmd False False (subprocess_run E (trace s) compose_down_cmd)) s"
    using run_command_state[of E compose_down_cmd False False s] by simp
  have e1: "extends s s'" by (simp add: s')
  have ev1: "events_of s s' = [Ran compose_down_cmd False False (subprocess_run E (trace s) compose_down_cmd)]"
    by (simp add: s')
  let ?s'' = "snd (force_cleanup_containers E s')"
  have e2: "extends s' ?s''" using sweep_event_quiet by (rule emits_extends)
  have q: "\<forall>ev \<in> set (events_of s' ?s''). \<not> is_teardown ev"
    "\<forall>ev \<in> set (events_of s' ?s''). \<not> is_poll ev"
    using emits_event[OF sweep_event_quiet, of _ s' E] by auto
  have ev2: "events_of s ?s'' = events_of s s' @ events_of s' ?s''"
    using e1 e2 by (rule events_of_trans)
  show ?thesis
  proof (cases r)
    case (Inl e)
    with rs e1 ev1 show ?thesis by (simp add: cleanup_def)
  next
    case (Inr cp)
    with rs have "snd (cleanup E s) = ?s''" by (simp add: cleanup_def)
    with extends_trans[OF e1 e2] ev2 ev1 filter_none[OF q(1)] filter_none[OF q(2)]
    show ?thesis by simp
  qed
qed

lemma inspect_not_teardown: "inspect_cmd \<noteq> compose_down_cmd"
  by (simp add: inspect_cmd_def compose_down_cmd_def)

lemma docker_run_not_teardown: "docker_run_cmd container network_id \<noteq> compose_down_cmd"
  by (simp add: docker_run_cmd_def compose_down_cmd_def)

lemma launch_container_events:
  "extends s (snd (launch_container E s))
   \<and> (\<exists>r. events_of s (snd (launch_container E s)) = [Ran inspect_cmd False False r]
        \<or> (\<exists>n r'. events_of s (snd (launch_container E s))
               = [Ran inspect_cmd False False r,
                  Ran (docker_run_cmd (candidate_container_name s) n) True False r']))"
proof -
  let ?p = "run_command E inspect_cmd False False"
  obtain r s' where rs: "?p s = (r, s')" by (cases "?p s")
  then have s': "s' = emit (Ran inspect_cmd False False (subprocess_run E (trace s) inspect_cmd)) s"
    using run_command_state[of E inspect_cmd False False s] by simp
  have nm: "candidate_container_name s' = candidate_container_name s"
    by (simp add: s' emit_def)
  show ?thesis
  proof (cases r)
    case (Inl e)
    with rs have "snd (launch_container E s) = s'" by (simp add: launch_container_def)
    then show ?thesis by (auto simp: s')
  next
    case (Inr k3s)
    define n where "n = (if returncode k3s = 0 then strip (stdout k3s)
                         else ''k8s_challenger_flagsmith-network'')"
    let ?c = "docker_run_cmd (candidate_container_name s) n"
    from rs Inr have "snd (launch_container E s) = snd (run_command E ?c True False s')"
      by (simp add: launch_container_def Let_def n_def nm)
    then have "snd (launch_container E s) = emit (Ran ?c True False (subprocess_run E (trace s') ?c)) s'"
      by (simp add: run_command_state)
    then show ?thesis by (auto simp: s')
  qed
qed

lemma launch_container_counts:
  "extends s (snd (launch_container E s))
   \<and> length (filter is_teardown (events_of s (snd (launch_container E s)))) \<le> 0
   \<and> length (filter is_poll (events_of s (snd (launch_container E s)))) \<le> 0"
  using launch_container_events[of s E] inspect_not_teardown docker_run_not_teardown
  by auto

lemma pause_counts:
  "extends s (snd (pause n s))
   \<and> length (filter is_teardown (events_of s (snd (pause n s)))) \<le> 0
   \<and> length (filter is_poll (events_of s (snd (pause n s)))) \<le> 0"
  by (simp add: pause_def sleep_def)

lemma start_candidate_environment_counts:
  "extends s (snd (start_candidate_environment E s))
   \<and> relaunches (events_of s (snd (start_candidate_environment E s))) \<le> 1
   \<and> polls (events_of s (snd (start_candidate_environment E s))) = 0"
proof -
  have t: "list_all2 (\<lambda>f k. \<forall>s. extends s (snd (f s))
                        \<and> length (filter is_teardown (events_of s (snd (f s)))) \<le> k)
             [cleanup E, pause 2, launch_container E] [1, 0, 0]"
    using cleanup_counts launch_container_counts pause_counts by simp
  have p: "list_all2 (\<lambda>f k. \<forall>s. extends s (snd (f s))
                        \<and> length (filter is_poll (events_of s (snd (f s)))) \<le> k)
             [cleanup E, pause 2, launch_container E] [0, 0, 0]"
    using cleanup_counts launch_container_counts pause_counts by simp
  from run_all_count[OF t, of s] run_all_count[OF p, of s] show ?thesis
    by (simp add: start_candidate_environment_def relaunches_def polls_def)
qed

lemma relaunch_counts:
  "extends s (snd (run_all [start_candidate_environment E, pause 3] s))
   \<and> relaunches (events_of s (snd (run_all [start_candidate_environment E, pause 3] s))) \<le> 1
   \<and> polls (events_of s (snd (run_all [start_candidate_environment E, pause 3] s))) = 0"
proof -
  have t: "list_all2 (\<lambda>f k. \<forall>s. extends s (snd (f s))
                        \<and> length (filter is_teardown (events_of s (snd (f s)))) \<le> k)
             [start_candidate_environment E, pause 3] [1, 0]"
    using start_candidate_environment_counts pause_counts by (simp add: relaunches_def)
  have p: "list_all2 (\<lambda>f k. \<forall>s. extends s (snd (f s))
                        \<and> length (filter is_poll (events_of s (snd (f s)))) \<le> k)
             [start_candidate_environment E, pause 3] [0, 0]"
    using start_candidate_environment_counts pause_counts by (simp add: polls_def)
  from run_all_count[OF t, of s] run_all_count[OF p, of s] show ?thesis
    by (simp add: relaunches_def polls_def)
qed

lemma retry_loop_events:
  "extends s (snd (retry_loop E retries s))
   \<and> polls (events_of s (snd (retry_loop E retries s))) \<le> length retries * 10
   \<and> relaunches (events_of s (snd (retry_loop E retries s)))
       \<le> length (filter (\<lambda>retry. 0 < retry) retries)"
proof (induction retries arbitrary: s)
  case Nil
  then show ?case by simp
next
  case (Cons retry retries)
  define pre where "pre = (if retry > 0 then run_all [start_candidate_environment E, pause 3] s
                           else (Inr (), s))"
  obtain r1 s1 where p1: "pre = (r1, s1)" by (cases pre)
  have e1: "extends s s1" and n1: "polls (events_of s s1) = 0"
    and l1: "relaunches (events_of s s1) \<le> (if 0 < retry then 1 else 0)"
    using relaunch_counts[of s E] p1 by (auto simp: pre_def split: if_splits)
  show ?case
  proof (cases r1)
    case (Inl e)
    with p1 have "retry_loop E (retry # retries) s = (Inl e, s1)"
      by (simp add: pre_def)
    with e1 n1 l1 show ?thesis by (auto split: if_splits)
  next
    case (Inr u)
    obtain r2 s2 where p2: "poll_loop E [0..<10] s1 = (r2, s2)"
      by (cases "poll_loop E [0..<10] s1")
    from poll_loop_events[of s1 E "[0..<10]"] p2
    have e2: "extends s1 s2" and n2: "polls (events_of s1 s2) \<le> 10"
      and l2: "relaunches (events_of s1 s2) = 0"
      by simp_all
    have e12: "extends s s2" using e1 e2 by (rule extends_trans)
    have ev12: "events_of s s2 = events_of s s1 @ events_of s1 s2"
      using e1 e2 by (rule events_of_trans)
    have n12: "polls (events_of s s2) \<le> 10" and l12: "relaunches (events_of s s2) \<le> (if 0 < retry then 1 else 0)"
      using n1 n2 l1 l2 by (simp_all add: ev12)
    consider (raised) e where "r2 = Inl e" | (ready) "r2 = Inr True" | (again) "r2 = Inr False"
      by (cases r2) auto
    then show ?thesis
    proof cases
      case raised
      with p1 Inr p2 have "retry_loop E (retry # retries) s = (Inl e, s2)"
        by (simp add: pre_def)
      with e12 n12 l12 show ?thesis by (auto split: if_splits)
    next
      case ready
      with p1 Inr p2 have "retry_loop E (retry # retries) s = (Inr True, s2)"
        by (simp add: pre_def)
      with e12 n12 l12 show ?thesis by (auto split: if_splits)
    next
      case again
      with p1 Inr p2 have whole: "retry_loop E (retry # retries) s = retry_loop E retries s2"
        by (simp add: pre_def)
      from Cons.IH[of s2]
      have e3: "extends s2 (snd (retry_loop E retries s2))"
        and n3: "polls (events_of s2 (snd (retry_loop E retries s2))) \<le> length retries * 10"
        and l3: "relaunches (events_of s2 (snd (retry_loop E retries s2)))
                   \<le> length (filter (\<lambda>retry. 0 < retry) retries)"
        by simp_all
      have ev: "events_of s (snd (retry_loop E retries s2))
          = events_of s s2 @ events_of s2 (snd (retry_loop E retries s2))"
        using e12 e3 by (rule events_of_trans)
      show ?thesis
        unfolding whole using extends_trans[OF e12 e3] n12 l12 n3 l3
        by (auto simp: ev split: if_splits)
    qed
  qed
qed

text \<open>
  C6. \<^verbatim>\<open>_setup_candidate_connection\<close> is a total function: it ends in every world. It
  polls the descriptor at most \<^verbatim>\<open>(max_retries + 1) * 10 = 30\<close> times, three attempts of ten
  polls, and relaunches the candidate environment at most \<^verbatim>\<open>max_retries = 2\<close> times.
  Within one attempt there are at most ten polls, two polls are separated by a pause, and
  every pause of an attempt is one second long.
\<close>

theorem connection_polls_bounded:
  "polls (connection_events E s) \<le> (max_retries + 1) * 10
   \<and> (max_retries + 1) * 10 = 30
   \<and> relaunches (connection_events E s) \<le> max_retries
   \<and> polls (events_of s (snd (poll_loop E [0..<10] s))) \<le> 10
   \<and> polls (events_of s (snd (poll_loop E [0..<10] s)))
       \<le> Suc (pauses (events_of s (snd (poll_loop E [0..<10] s))))
   \<and> (\<forall>n. Sleep n \<in> set (events_of s (snd (poll_loop E [0..<10] s))) \<longrightarrow> n = 1)"
proof -
  have f: "filter (\<lambda>retry. 0 < retry) [0..<max_retries + 1] = [1, 2]"
    by (simp add: max_retries_def upt_rec)
  from retry_loop_events[of s E "[0..<max_retries + 1]"] f
  have a: "polls (connection_events E s) \<le> (max_retries + 1) * 10"
    and b: "relaunches (connection_events E s) \<le> max_retries"
    by (simp_all add: connection_events_def setup_candidate_connection_def max_retries_def)
  from poll_loop_events[of s E "[0..<10]"]
  have c: "polls (events_of s (snd (poll_loop E [0..<10] s))) \<le> 10"
    and d: "polls (events_of s (snd (poll_loop E [0..<10] s)))
       \<le> Suc (pauses (events_of s (snd (poll_loop E [0..<10] s))))"
    and e: "\<forall>ev \<in> set (events_of s (snd (poll_loop E [0..<10] s))).
         is_poll ev \<or> is_file_event ev \<or> ev = Sleep 1"
    by simp_all
  from e have e': "\<forall>n. Sleep n \<in> set (events_of s (snd (poll_loop E [0..<10] s))) \<longrightarrow> n = 1"
    by fastforce
  from a b c d e' show ?thesis by (simp add: max_retries_def)
qed

text \<open>A world that stays pending exhausts the budget.\<close>

lemma strip_pending: "strip ''pending'' = ''pending''"
  by (simp add: strip_def is_space_def)

lemma get_tmate_info_pending:
  "stays_pending E \<Longrightarrow> fst (get_tmate_info E s) = Inr (False, None, None)"
  by (simp add: get_tmate_info_def get_tmate_info_body_def file_exists_def read_stripped_def
                stays_pending_def Let_def strip_pending)

lemma check_session_failure_pending:
  "stays_pending E \<Longrightarrow> fst (check_session_failure E s) = Inr False"
  by (simp add: check_session_failure_def file_exists_def read_stripped_def stays_pending_def
                Let_def strip_pending)

lemma poll_loop_pending:
  assumes "stays_pending E"
  shows "fst (poll_loop E attempts s) = Inr False
       \<and> polls (events_of s (snd (poll_loop E attempts s))) = length attempts
       \<and> (attempts \<noteq> [] \<longrightarrow> Sleep 1 \<in> set (events_of s (snd (poll_loop E attempts s))))"
proof (induction attempts arbitrary: s)
  case Nil
  then show ?case by simp
next
  case (Cons a attempts)
  obtain s1 where g: "get_tmate_info E s = (Inr (False, None, None), s1)"
    using get_tmate_info_pending[OF assms, of s] by (cases "get_tmate_info E s") auto
  from get_tmate_info_events[of s E] g obtain fs where
    e1: "extends s s1" and ev1: "events_of s s1 = TmateInfo # fs"
    and fs: "\<forall>ev \<in> set fs. is_file_event ev"
    by auto
  note c1 = file_events_count[OF fs]
  obtain s2 where c: "check_session_failure E s1 = (Inr False, s2)"
    using check_session_failure_pending[OF assms, of s1] by (cases "check_session_failure E s1") auto
  from check_session_failure_events[of s1 E] c
  have e2: "extends s1 s2" and fs2: "\<forall>ev \<in> set (events_of s1 s2). is_file_event ev" by simp_all
  note c2 = file_events_count[OF fs2]
  have e12: "extends s s2" using e1 e2 by (rule extends_trans)
  have ev12: "events_of s s2 = TmateInfo # fs @ events_of s1 s2"
    using events_of_trans[OF e1 e2] ev1 by simp
  define s3 where "s3 = sleep 1 s2"
  define rest where "rest = events_of s3 (snd (poll_loop E attempts s3))"
  have e3: "extends s s3" using e12 by (simp add: s3_def sleep_def)
  have ev3: "events_of s s3 = TmateInfo # fs @ events_of s1 s2 @ [Sleep 1]"
    using e12 ev12 by (simp add: s3_def sleep_def)
  from Cons.IH[of s3]
  have IH: "fst (poll_loop E attempts s3) = Inr False" "polls rest = length attempts"
    by (simp_all add: rest_def)
  have e4: "extends s3 (snd (poll_loop E attempts s3))"
    using poll_loop_events[of s3 E attempts] by simp
  have ev4: "events_of s (snd (poll_loop E attempts s3))
      = (TmateInfo # fs @ events_of s1 s2 @ [Sleep 1]) @ rest"
    using events_of_trans[OF e3 e4] ev3 by (simp add: rest_def)
  have whole: "poll_loop E (a # attempts) s = poll_loop E attempts s3"
    using g c by (simp add: s3_def)
  have "polls (events_of s (snd (poll_loop E attempts s3))) = Suc (length attempts)"
    unfolding ev4 using c1 c2 IH(2) by simp
  moreover have "Sleep 1 \<in> set (events_of s (snd (poll_loop E attempts s3)))"
    unfolding ev4 by simp
  ultimately show ?case
    unfolding whole using IH(1) by simp
qed

lemma launch_container_returns:
  "commands_succeed E \<Longrightarrow> fst (launch_container E s) = Inr ()"
proof -
  assume a: "commands_succeed E"
  then obtain out where i: "subprocess_run E (trace s) inspect_cmd = Inr (Completed 0 out)"
    unfolding commands_succeed_def by blast
  let ?s' = "emit (Ran inspect_cmd False False (Inr (Completed 0 out))) s"
  let ?c = "docker_run_cmd (candidate_container_name ?s') (strip out)"
  from a obtain out' where r: "subprocess_run E (trace ?s') ?c = Inr (Completed 0 out')"
    unfolding commands_succeed_def by blast
  from i r show ?thesis
    by (simp add: launch_container_def run_command_def Let_def discard_def)
qed

lemma commands_succeed_launchable: "commands_succeed E \<Longrightarrow> launchable E"
  unfolding commands_succeed_def launchable_def by blast

lemma start_candidate_environment_returns:
  "commands_succeed E \<Longrightarrow> fst (start_candidate_environment E s) = Inr ()"
proof -
  assume a: "commands_succeed E"
  have "\<forall>f \<in> set [cleanup E, pause 2, launch_container E]. \<forall>s. \<exists>u. fst (f s) = Inr u"
    using cleanup_returns[OF commands_succeed_launchable[OF a]] launch_container_returns[OF a]
    by (simp add: pause_def)
  from run_all_success[OF this, of s] show ?thesis
    by (simp add: start_candidate_environment_def)
qed

lemma retry_loop_pending:
  assumes "stays_pending E" "commands_succeed E"
  shows "fst (retry_loop E retries s) = Inr False
       \<and> polls (events_of s (snd (retry_loop E retries s))) = length retries * 10"
proof (induction retries arbitrary: s)
  case Nil
  then show ?case by simp
next
  case (Cons retry retries)
  define pre where "pre = (if retry > 0 then run_all [start_candidate_environment E, pause 3] s
                           else (Inr (), s))"
  have "\<forall>f \<in> set [start_candidate_environment E, pause 3]. \<forall>s. \<exists>u. fst (f s) = Inr u"
    using start_candidate_environment_returns[OF assms(2)] by (simp add: pause_def)
  from run_all_success[OF this, of s]
  have "fst pre = Inr ()" by (simp add: pre_def)
  then obtain s1 where p1: "pre = (Inr (), s1)" by (cases pre) auto
  have e1: "extends s s1" and n1: "polls (events_of s s1) = 0"
    using relaunch_counts[of s E] p1 by (auto simp: pre_def split: if_splits)
  obtain s2 where p2: "poll_loop E [0..<10] s1 = (Inr False, s2)"
    using poll_loop_pending[OF assms(1), of "[0..<10]" s1] by (cases "poll_loop E [0..<10] s1") auto
  from poll_loop_events[of s1 E "[0..<10]"] poll_loop_pending[OF assms(1), of "[0..<10]" s1] p2
  have e2: "extends s1 s2" and n2: "polls (events_of s1 s2) = 10"
    by simp_all
  have e12: "extends s s2" using e1 e2 by (rule extends_trans)
  have ev12: "events_of s s2 = events_of s s1 @ events_of s1 s2"
    using e1 e2 by (rule events_of_trans)
  have whole: "retry_loop E (retry # retries) s = retry_loop E retries s2"
    using p1 p2 by (simp add: pre_def)
  have e3: "extends s2 (snd (retry_loop E retries s2))"
    using retry_loop_events[of s2 E retries] by simp
  have ev: "events_of s (snd (retry_loop E retries s2))
      = events_of s s2 @ events_of s2 (snd (retry_loop E retries s2))"
    using e12 e3 by (rule events_of_trans)
  show ?case
    unfolding whole using Cons.IH[of s2] n1 n2 by (simp add: ev ev12)
qed

lemma pending_env_pending: "stays_pending pending_env \<and> commands_succeed pending_env"
  by (simp add: stays_pending_def commands_succeed_def pending_env_def quiet_env_def)

theorem connection_polls_bounded_witness:
  "polls (connection_events pending_env fresh_manager) \<le> 30
   \<and> polls (connection_events pending_env fresh_manager) = 30
   \<and> fst (setup_candidate_connection pending_env fresh_manager) = Inr False
   \<and> Sleep 1 \<in> set (events_of fresh_manager (snd (poll_loop pending_env [0..<10] fresh_manager)))"
proof -
  note run = connection_polls_bounded[where E=pending_env and s=fresh_manager]
  from run[THEN conjunct1] run[THEN conjunct2, THEN conjunct1]
  have le: "polls (connection_events pending_env fresh_manager) \<le> 30" by simp
  from retry_loop_pending[of pending_env "[0..<max_retries + 1]" fresh_manager] pending_env_pending
  have eq: "polls (connection_events pending_env fresh_manager) = 30"
    and res: "fst (setup_candidate_connection pending_env fresh_manager) = Inr False"
    by (simp_all add: connection_events_def setup_candidate_connection_def max_retries_def)
  from poll_loop_pending[of pending_env "[0..<10]" fresh_manager] pending_env_pending
  have sl: "Sleep 1 \<in> set (events_of fresh_manager (snd (poll_loop pending_env [0..<10] fresh_manager)))"
    by simp
  from le eq res sl show ?thesis by (intro conjI)
qed

subsection \<open>The session\<close>

lemma grows_refl [simp]: "grows s s"
  by (simp add: grows_def)
























end
